theory Spec2Isabelle
  imports Main "HOL-Library.Word"
begin

section \<open>The ring buffer of ringbuf.c\<close>

text \<open>
  A shallow embedding of \<^verbatim>\<open>src/ringbuf.c\<close>.

  \<^item> A byte (\<^verbatim>\<open>uint8_t\<close>) is an \<open>8 word\<close>; the conversion of the \<^verbatim>\<open>int c\<close> argument of
    \<^verbatim>\<open>memset\<close> and \<^verbatim>\<open>memchr\<close> to \<^verbatim>\<open>unsigned char\<close> is \<open>word_of_int\<close>.
  \<^item> \<^verbatim>\<open>struct ringbuf_t\<close> is the record \<open>ringbuf\<close>. The field \<open>buf\<close> holds the bytes
    of the storage region \<^verbatim>\<open>rb->buf[0 .. size)\<close>; the pointers \<^verbatim>\<open>head\<close> and \<^verbatim>\<open>tail\<close>
    are kept as their offsets from \<^verbatim>\<open>rb->buf\<close>, so \<^verbatim>\<open>rb->buf\<close> itself is offset 0
    and \<^verbatim>\<open>ringbuf_end\<close> is offset \<open>size\<close>. The field \<^verbatim>\<open>size\<close> is named
    \<open>size_rb\<close>.
  \<^item> \<^verbatim>\<open>size_t\<close> values are natural numbers. On a buffer that satisfies \<open>rb_valid\<close>
    every subtraction of the source is taken with the larger operand first, and every
    sum stays below twice the size of one object, so no expression of the source wraps.
    The one expression that can wrap, \<^verbatim>\<open>capacity + 1\<close> in the constructors, is written
    with its modulus.
  \<^item> An \<^verbatim>\<open>assert\<close> that fails is the result \<open>Inl AssertionFailed\<close>; reading or
    writing a caller's array beyond its end is \<open>Inl OutOfBounds\<close>.
  \<^item> Mutation is state passing: an operation returns the buffers it has changed.
  \<^item> Each \<^verbatim>\<open>while\<close> loop is a recursive function of the variables it changes. Its
    counter starts at 0 and grows by \<open>n \<le> count - counter\<close>, so it never passes
    \<open>count\<close>; the branch \<open>Inl Unreachable\<close> makes the function total on the other
    arguments.
\<close>

type_synonym byte = "8 word"

datatype error = AssertionFailed | OutOfBounds | Unreachable

record ringbuf =
  buf :: "byte list"
  head :: nat
  tail :: nat
  size_rb :: nat

subsection \<open>Library functions of C used by the source\<close>

text \<open>\<^verbatim>\<open>memset(m + p, c, n)\<close> on the bytes \<open>m\<close> of a region.\<close>

definition memset_bytes :: "byte list \<Rightarrow> nat \<Rightarrow> int \<Rightarrow> nat \<Rightarrow> byte list" where
  "memset_bytes m p c n = take p m @ replicate n (word_of_int c) @ drop (p + n) m"

text \<open>\<^verbatim>\<open>memcpy(d + p, s + q, n)\<close>, for regions \<open>d\<close> and \<open>s\<close> that do not overlap.\<close>

definition memcpy_bytes :: "byte list \<Rightarrow> nat \<Rightarrow> byte list \<Rightarrow> nat \<Rightarrow> nat \<Rightarrow> byte list" where
  "memcpy_bytes d p s q n = take p d @ take n (drop q s) @ drop (p + n) d"

text \<open>The index of the first byte equal to \<open>c\<close>, if there is one.\<close>

fun first_index :: "byte \<Rightarrow> byte list \<Rightarrow> nat option" where
  "first_index c [] = None"
| "first_index c (x # xs) = (if x = c then Some 0 else map_option Suc (first_index c xs))"

text \<open>
  \<^verbatim>\<open>memchr(m + start, c, n)\<close>: the result is \<^verbatim>\<open>found - start\<close>, and \<open>None\<close> is the
  null pointer.
\<close>

definition memchr :: "byte list \<Rightarrow> nat \<Rightarrow> int \<Rightarrow> nat \<Rightarrow> nat option" where
  "memchr m start c n = first_index (word_of_int c) (take n (drop start m))"

subsection \<open>Accessors and occupancy\<close>

definition ringbuf_buffer_size :: "ringbuf \<Rightarrow> nat" where
  "ringbuf_buffer_size rb = size_rb rb"

definition ringbuf_reset :: "ringbuf \<Rightarrow> ringbuf" where
  "ringbuf_reset rb = rb\<lparr>head := 0, tail := 0\<rparr>"

definition ringbuf_capacity :: "ringbuf \<Rightarrow> nat" where
  "ringbuf_capacity rb = ringbuf_buffer_size rb - 1"

definition ringbuf_end :: "ringbuf \<Rightarrow> nat" where
  "ringbuf_end rb = ringbuf_buffer_size rb"

definition ringbuf_bytes_free :: "ringbuf \<Rightarrow> nat" where
  "ringbuf_bytes_free rb =
     (if head rb \<ge> tail rb then ringbuf_capacity rb - (head rb - tail rb)
      else tail rb - head rb - 1)"

definition ringbuf_bytes_used :: "ringbuf \<Rightarrow> nat" where
  "ringbuf_bytes_used rb = ringbuf_capacity rb - ringbuf_bytes_free rb"

definition ringbuf_is_full :: "ringbuf \<Rightarrow> bool" where
  "ringbuf_is_full rb = (ringbuf_bytes_free rb = 0)"

definition ringbuf_is_empty :: "ringbuf \<Rightarrow> bool" where
  "ringbuf_is_empty rb = (ringbuf_bytes_free rb = ringbuf_capacity rb)"

definition ringbuf_tail :: "ringbuf \<Rightarrow> nat" where
  "ringbuf_tail rb = tail rb"

definition ringbuf_head :: "ringbuf \<Rightarrow> nat" where
  "ringbuf_head rb = head rb"

definition ringbuf_nextp :: "ringbuf \<Rightarrow> nat \<Rightarrow> error + nat" where
  "ringbuf_nextp rb p =
     (if p < ringbuf_end rb then Inr ((p + 1) mod ringbuf_buffer_size rb)
      else Inl AssertionFailed)"

subsection \<open>Search\<close>

function ringbuf_findchr :: "ringbuf \<Rightarrow> int \<Rightarrow> nat \<Rightarrow> error + nat" where
  "ringbuf_findchr rb c offset =
     (let bufend = ringbuf_end rb;
          bytes_used = ringbuf_bytes_used rb
      in if offset \<ge> bytes_used then Inr bytes_used
         else
           let start = (tail rb + offset) mod ringbuf_buffer_size rb
           in if \<not> bufend > start then Inl AssertionFailed
              else
                let n = min (bufend - start) (bytes_used - offset)
                in case memchr (buf rb) start c n of
                     Some i \<Rightarrow> Inr (offset + i)
                   | None \<Rightarrow> ringbuf_findchr rb c (offset + n))"
  by pat_completeness auto

termination
  by (relation "measure (\<lambda>(rb, c, offset). ringbuf_bytes_used rb - offset)") auto

subsection \<open>Fill\<close>

text \<open>The loop of \<^verbatim>\<open>ringbuf_memset\<close>; it returns the buffer and \<open>nwritten\<close>.\<close>

function memset_loop :: "ringbuf \<Rightarrow> int \<Rightarrow> nat \<Rightarrow> nat \<Rightarrow> error + (ringbuf \<times> nat)" where
  "memset_loop dst c count nwritten =
     (if nwritten = count then Inr (dst, nwritten)
      else if count < nwritten then Inl Unreachable
      else if \<not> ringbuf_end dst > head dst then Inl AssertionFailed
      else
        let n = min (ringbuf_end dst - head dst) (count - nwritten);
            dst1 = dst\<lparr>buf := memset_bytes (buf dst) (head dst) c n, head := head dst + n\<rparr>;
            nwritten1 = nwritten + n;
            dst2 = (if head dst1 = ringbuf_end dst then dst1\<lparr>head := 0\<rparr> else dst1)
        in memset_loop dst2 c count nwritten1)"
  by pat_completeness auto

termination
  by (relation "measure (\<lambda>(dst, c, count, nwritten). count - nwritten)")
     (auto simp: Let_def)

text \<open>
  The statements under \<^verbatim>\<open>if (overflow)\<close>, the same in \<^verbatim>\<open>ringbuf_memset\<close>,
  \<^verbatim>\<open>ringbuf_memcpy_into\<close> and \<^verbatim>\<open>ringbuf_copy\<close>: the tail becomes
  \<^verbatim>\<open>ringbuf_nextp(dst, dst->head)\<close>, and the buffer is asserted to be full.
\<close>

definition overflow_tail :: "ringbuf \<Rightarrow> error + ringbuf" where
  "overflow_tail dst =
     (case ringbuf_nextp dst (head dst) of
        Inl e \<Rightarrow> Inl e
      | Inr t \<Rightarrow>
          let dst1 = dst\<lparr>tail := t\<rparr>
          in if ringbuf_is_full dst1 then Inr dst1 else Inl AssertionFailed)"

definition ringbuf_memset :: "ringbuf \<Rightarrow> int \<Rightarrow> nat \<Rightarrow> error + (nat \<times> ringbuf)" where
  "ringbuf_memset dst c len =
     (let count = min len (ringbuf_buffer_size dst);
          overflow = count > ringbuf_bytes_free dst
      in case memset_loop dst c count 0 of
           Inl e \<Rightarrow> Inl e
         | Inr (dst1, nwritten) \<Rightarrow>
             if overflow then
               (case overflow_tail dst1 of
                  Inl e \<Rightarrow> Inl e
                | Inr dst2 \<Rightarrow> Inr (nwritten, dst2))
             else Inr (nwritten, dst1))"

subsection \<open>Copying bytes in\<close>

text \<open>
  The loop of \<^verbatim>\<open>ringbuf_memcpy_into\<close>; \<open>src\<close> holds the bytes of the caller's array
  \<^verbatim>\<open>u8src\<close>.
\<close>

function memcpy_into_loop :: "ringbuf \<Rightarrow> byte list \<Rightarrow> nat \<Rightarrow> nat \<Rightarrow> error + ringbuf" where
  "memcpy_into_loop dst src count nread =
     (if nread = count then Inr dst
      else if count < nread then Inl Unreachable
      else if \<not> ringbuf_end dst > head dst then Inl AssertionFailed
      else
        let n = min (ringbuf_end dst - head dst) (count - nread)
        in if length src < nread + n then Inl OutOfBounds
           else
             let dst1 = dst\<lparr>buf := memcpy_bytes (buf dst) (head dst) src nread n,
                            head := head dst + n\<rparr>;
                 nread1 = nread + n;
                 dst2 = (if head dst1 = ringbuf_end dst then dst1\<lparr>head := 0\<rparr> else dst1)
             in memcpy_into_loop dst2 src count nread1)"
  by pat_completeness auto

termination
  by (relation "measure (\<lambda>(dst, src, count, nread). count - nread)")
     (auto simp: Let_def)

text \<open>The result is the new head and the buffer.\<close>

definition ringbuf_memcpy_into :: "ringbuf \<Rightarrow> byte list \<Rightarrow> nat \<Rightarrow> error + (nat \<times> ringbuf)" where
  "ringbuf_memcpy_into dst src count =
     (let overflow = count > ringbuf_bytes_free dst
      in case memcpy_into_loop dst src count 0 of
           Inl e \<Rightarrow> Inl e
         | Inr dst1 \<Rightarrow>
             if overflow then
               (case overflow_tail dst1 of
                  Inl e \<Rightarrow> Inl e
                | Inr dst2 \<Rightarrow> Inr (head dst2, dst2))
             else Inr (head dst1, dst1))"

subsection \<open>Copying bytes out\<close>

text \<open>
  The loop of \<^verbatim>\<open>ringbuf_memcpy_from\<close>; \<open>u8dst\<close> holds the bytes of the caller's array
  and is returned as the loop leaves it.
\<close>

function memcpy_from_loop ::
  "byte list \<Rightarrow> ringbuf \<Rightarrow> nat \<Rightarrow> nat \<Rightarrow> error + (byte list \<times> ringbuf)" where
  "memcpy_from_loop u8dst src count nwritten =
     (if nwritten = count then Inr (u8dst, src)
      else if count < nwritten then Inl Unreachable
      else if \<not> ringbuf_end src > tail src then Inl AssertionFailed
      else
        let n = min (ringbuf_end src - tail src) (count - nwritten)
        in if length u8dst < nwritten + n then Inl OutOfBounds
           else
             let u8dst1 = memcpy_bytes u8dst nwritten (buf src) (tail src) n;
                 src1 = src\<lparr>tail := tail src + n\<rparr>;
                 nwritten1 = nwritten + n;
                 src2 = (if tail src1 = ringbuf_end src then src1\<lparr>tail := 0\<rparr> else src1)
             in memcpy_from_loop u8dst1 src2 count nwritten1)"
  by pat_completeness auto

termination
  by (relation "measure (\<lambda>(u8dst, src, count, nwritten). count - nwritten)")
     (auto simp: Let_def)

text \<open>
  The result is the returned pointer (\<open>None\<close> is the null pointer, otherwise the new
  tail), the caller's array and the buffer.
\<close>

definition ringbuf_memcpy_from ::
  "byte list \<Rightarrow> ringbuf \<Rightarrow> nat \<Rightarrow> error + (nat option \<times> byte list \<times> ringbuf)" where
  "ringbuf_memcpy_from dst src count =
     (let bytes_used = ringbuf_bytes_used src
      in if count > bytes_used then Inr (None, dst, src)
         else
           case memcpy_from_loop dst src count 0 of
             Inl e \<Rightarrow> Inl e
           | Inr (dst1, src1) \<Rightarrow>
               if count + ringbuf_bytes_used src1 = bytes_used then Inr (Some (tail src1), dst1, src1)
               else Inl AssertionFailed)"

subsection \<open>Copying from one ring buffer to another\<close>

text \<open>
  \<^verbatim>\<open>ringbuf_copy\<close> is modelled for two distinct buffers with disjoint storage: the
  source copies with \<^verbatim>\<open>memcpy\<close>, whose regions must not overlap.
\<close>

function copy_loop :: "ringbuf \<Rightarrow> ringbuf \<Rightarrow> nat \<Rightarrow> nat \<Rightarrow> error + (ringbuf \<times> ringbuf)" where
  "copy_loop dst src count ncopied =
     (if ncopied = count then Inr (dst, src)
      else if count < ncopied then Inl Unreachable
      else if \<not> ringbuf_end src > tail src then Inl AssertionFailed
      else
        let nsrc = min (ringbuf_end src - tail src) (count - ncopied)
        in if \<not> ringbuf_end dst > head dst then Inl AssertionFailed
           else
             let n = min (ringbuf_end dst - head dst) nsrc;
                 dst1 = dst\<lparr>buf := memcpy_bytes (buf dst) (head dst) (buf src) (tail src) n,
                            head := head dst + n\<rparr>;
                 src1 = src\<lparr>tail := tail src + n\<rparr>;
                 ncopied1 = ncopied + n;
                 src2 = (if tail src1 = ringbuf_end src then src1\<lparr>tail := 0\<rparr> else src1);
                 dst2 = (if head dst1 = ringbuf_end dst then dst1\<lparr>head := 0\<rparr> else dst1)
             in copy_loop dst2 src2 count ncopied1)"
  by pat_completeness auto

termination
proof (relation "measure (\<lambda>(dst, src, count, ncopied). count - ncopied)")
  show "wf (measure (\<lambda>(dst, src, count, ncopied). count - ncopied))"
    by simp
next
  fix dst src :: ringbuf and count ncopied nsrc n :: nat
  assume "ncopied \<noteq> count" "\<not> count < ncopied"
    "\<not> \<not> ringbuf_end src > tail src" "\<not> \<not> ringbuf_end dst > head dst"
    "nsrc = min (ringbuf_end src - tail src) (count - ncopied)"
    "n = min (ringbuf_end dst - head dst) nsrc"
  then have "0 < n" and "ncopied < count"
    by simp_all
  then have "count - (ncopied + n) < count - ncopied"
    by arith
  then show "\<And>dst2 src2 ncopied1. ncopied1 = ncopied + n \<Longrightarrow>
      ((dst2, src2, count, ncopied1), dst, src, count, ncopied)
        \<in> measure (\<lambda>(dst, src, count, ncopied). count - ncopied)"
    by simp
qed

text \<open>
  The result is the returned pointer (\<open>None\<close> is the null pointer, otherwise the new head
  of \<open>dst\<close>), then \<open>dst\<close> and \<open>src\<close>.
\<close>

definition ringbuf_copy ::
  "ringbuf \<Rightarrow> ringbuf \<Rightarrow> nat \<Rightarrow> error + (nat option \<times> ringbuf \<times> ringbuf)" where
  "ringbuf_copy dst src count =
     (let src_bytes_used = ringbuf_bytes_used src
      in if count > src_bytes_used then Inr (None, dst, src)
         else
           let overflow = count > ringbuf_bytes_free dst
           in case copy_loop dst src count 0 of
                Inl e \<Rightarrow> Inl e
              | Inr (dst1, src1) \<Rightarrow>
                  if count + ringbuf_bytes_used src1 \<noteq> src_bytes_used then Inl AssertionFailed
                  else if overflow then
                    (case overflow_tail dst1 of
                       Inl e \<Rightarrow> Inl e
                     | Inr dst2 \<Rightarrow> Inr (Some (head dst2), dst2, src1))
                  else Inr (Some (head dst1), dst1, src1))"

subsection \<open>Construction\<close>

text \<open>
  The allocator hook is outside the source, so its answers are arguments: \<open>None\<close> is a
  failed allocation, \<open>Some p\<close> a block at address \<open>p\<close>. The heap is the set of the
  addresses of the live blocks. \<^verbatim>\<open>size_t\<close> is taken to have 64 bits.
\<close>

type_synonym heap = "nat set"

definition size_t_modulus :: nat where
  "size_t_modulus = 2 ^ 64"

definition rb_malloc :: "nat option \<Rightarrow> heap \<Rightarrow> nat option \<times> heap" where
  "rb_malloc answer h = (case answer of None \<Rightarrow> (None, h) | Some p \<Rightarrow> (Some p, insert p h))"

definition rb_free :: "nat \<Rightarrow> heap \<Rightarrow> heap" where
  "rb_free p h = h - {p}"

text \<open>
  \<^verbatim>\<open>ringbuf_new\<close>. The answer for the storage carries, besides the address, the bytes
  that the fresh region happens to hold (a function of the offset, so the region has
  the requested length). The result is the address of the metadata block with the
  buffer, or \<open>None\<close> for the null pointer.
\<close>

definition ringbuf_new ::
  "nat \<Rightarrow> nat option \<Rightarrow> (nat \<times> (nat \<Rightarrow> byte)) option \<Rightarrow> heap \<Rightarrow> (nat \<times> ringbuf) option \<times> heap" where
  "ringbuf_new capacity answer_rb answer_buf h =
     (case rb_malloc answer_rb h of
        (None, h1) \<Rightarrow> (None, h1)
      | (Some rb, h1) \<Rightarrow>
          let sz = (capacity + 1) mod size_t_modulus
          in case answer_buf of
               None \<Rightarrow> (None, rb_free rb h1)
             | Some (q, f) \<Rightarrow>
                 (Some (rb, ringbuf_reset
                              \<lparr>buf = map f [0..<sz], head = 0, tail = 0, size_rb = sz\<rparr>),
                  insert q h1))"

text \<open>
  \<^verbatim>\<open>ringbuf_new_static\<close>. The caller's storage is \<open>None\<close> for a null pointer and
  \<open>Some m\<close> for a region holding the bytes \<open>m\<close>.
\<close>

definition ringbuf_new_static ::
  "nat \<Rightarrow> byte list option \<Rightarrow> nat \<Rightarrow> nat option \<Rightarrow> heap
     \<Rightarrow> error + ((nat \<times> ringbuf) option \<times> heap)" where
  "ringbuf_new_static capacity buf_arg buf_size answer_rb h =
     (if (capacity + 1) mod size_t_modulus \<noteq> buf_size then Inl AssertionFailed
      else
        case rb_malloc answer_rb h of
          (None, h1) \<Rightarrow> Inr (None, h1)
        | (Some rb, h1) \<Rightarrow>
            (case buf_arg of
               Some m \<Rightarrow>
                 Inr (Some (rb, ringbuf_reset
                                  \<lparr>buf = m, head = 0, tail = 0,
                                   size_rb = (capacity + 1) mod size_t_modulus\<rparr>), h1)
             | None \<Rightarrow> Inr (None, rb_free rb h1)))"

section \<open>Specification\<close>

text \<open>
  A buffer is valid when it has at least the sentinel slot, its storage has the length
  its \<open>size\<close> field records, and both cursors point into the storage.
\<close>

definition rb_valid :: "ringbuf \<Rightarrow> bool" where
  "rb_valid rb \<longleftrightarrow>
     0 < size_rb rb \<and> length (buf rb) = size_rb rb \<and> head rb < size_rb rb \<and> tail rb < size_rb rb"

text \<open>The \<open>k\<close> bytes found from slot \<open>p\<close> on, going round the end of the storage.\<close>

definition ring_read :: "byte list \<Rightarrow> nat \<Rightarrow> nat \<Rightarrow> byte list" where
  "ring_read m p k = map (\<lambda>i. m ! ((p + i) mod length m)) [0..<k]"

text \<open>The storage after the bytes \<open>xs\<close> are stored one by one from slot \<open>p\<close> on.\<close>

fun ring_write :: "byte list \<Rightarrow> nat \<Rightarrow> byte list \<Rightarrow> byte list" where
  "ring_write m p [] = m"
| "ring_write m p (x # xs) = ring_write (m[p := x]) ((p + 1) mod length m) xs"

text \<open>The logical content: the unread bytes, oldest first (the flattened view).\<close>

definition contents :: "ringbuf \<Rightarrow> byte list" where
  "contents rb = ring_read (buf rb) (tail rb) (ringbuf_bytes_used rb)"

text \<open>
  The search of the specification, on the flattened content: the offset of the first
  byte equal to \<open>c\<close> at or after \<open>offset\<close>, and the length of the content when there is
  none or when \<open>offset\<close> is not below that length.
\<close>

definition flat_findchr :: "byte list \<Rightarrow> int \<Rightarrow> nat \<Rightarrow> nat" where
  "flat_findchr xs c offset =
     (if offset \<ge> length xs then length xs
      else case first_index (word_of_int c) (drop offset xs) of
             Some i \<Rightarrow> offset + i
           | None \<Rightarrow> length xs)"

text \<open>
  What a write of the bytes \<open>xs\<close> leaves: the bytes stored from the head on, the
  head after them, and, when they were more than the free bytes, the tail in the slot
  after the head.
\<close>

definition ring_put :: "ringbuf \<Rightarrow> byte list \<Rightarrow> ringbuf" where
  "ring_put rb xs =
     (let w = rb\<lparr>buf := ring_write (buf rb) (head rb) xs,
                 head := (head rb + length xs) mod size_rb rb\<rparr>
      in if length xs > ringbuf_bytes_free rb then w\<lparr>tail := (head w + 1) mod size_rb rb\<rparr>
         else w)"

text \<open>What a read of \<open>count\<close> bytes leaves: the tail after them.\<close>

definition ring_drop :: "ringbuf \<Rightarrow> nat \<Rightarrow> ringbuf" where
  "ring_drop rb count = rb\<lparr>tail := (tail rb + count) mod size_rb rb\<rparr>"

text \<open>The bytes of a string literal, for the scenarios.\<close>

definition bytes_of :: "string \<Rightarrow> byte list" where
  "bytes_of s = map of_char s"

text \<open>
  The buffers that a program can hold: those returned by a constructor for a capacity
  whose \<^verbatim>\<open>capacity + 1\<close> does not wrap (a region of \<open>capacity + 1\<close> bytes exists only
  then), and those left by an operation that returned. \<^verbatim>\<open>ringbuf_findchr\<close> takes a
  pointer to \<^verbatim>\<open>const\<close> and returns a number only; it is the step \<open>findchr\<close>.
\<close>

inductive reachable :: "ringbuf \<Rightarrow> bool" where
  new: "ringbuf_new capacity answer_rb answer_buf h = (Some (p, rb), h') \<Longrightarrow>
        capacity + 1 < size_t_modulus \<Longrightarrow> reachable rb"
| new_static: "ringbuf_new_static capacity (Some m) buf_size answer_rb h = Inr (Some (p, rb), h') \<Longrightarrow>
        capacity + 1 < size_t_modulus \<Longrightarrow> length m = buf_size \<Longrightarrow> reachable rb"
| reset: "reachable rb \<Longrightarrow> reachable (ringbuf_reset rb)"
| findchr: "reachable rb \<Longrightarrow> ringbuf_findchr rb c offset = Inr r \<Longrightarrow> reachable rb"
| memset: "reachable rb \<Longrightarrow> ringbuf_memset rb c len = Inr (r, rb') \<Longrightarrow> reachable rb'"
| memcpy_into: "reachable rb \<Longrightarrow> ringbuf_memcpy_into rb src count = Inr (r, rb') \<Longrightarrow> reachable rb'"
| memcpy_from: "reachable rb \<Longrightarrow> ringbuf_memcpy_from dst rb count = Inr (r, dst', rb') \<Longrightarrow>
        reachable rb'"
| copy_dst: "reachable d \<Longrightarrow> reachable s \<Longrightarrow> ringbuf_copy d s count = Inr (r, d', s') \<Longrightarrow>
        reachable d'"
| copy_src: "reachable d \<Longrightarrow> reachable s \<Longrightarrow> ringbuf_copy d s count = Inr (r, d', s') \<Longrightarrow>
        reachable s'"

declare memset_loop.simps [simp del]

declare memcpy_into_loop.simps [simp del]

declare memcpy_from_loop.simps [simp del]

declare copy_loop.simps [simp del]

declare ringbuf_findchr.simps [simp del]

section \<open>Lemmas on storage and occupancy\<close>

lemma length_ring_write [simp]: "length (ring_write m p xs) = length m"
  by (induction xs arbitrary: m p) simp_all

lemma length_ring_read [simp]: "length (ring_read m p k) = k"
  by (simp add: ring_read_def)

lemma ring_write_append:
  "p < length m \<Longrightarrow>
   ring_write m p (xs @ ys) = ring_write (ring_write m p xs) ((p + length xs) mod length m) ys"
proof (induction xs arbitrary: m p)
  case Nil
  then show ?case by simp
next
  case (Cons x xs)
  from Cons.prems have "0 < length m"
    by auto
  then have "(p + 1) mod length m < length (m[p := x])"
    by simp
  from Cons.IH [OF this] show ?case
    by (simp add: mod_simps)
qed

lemma ring_write_contiguous:
  "p + length xs \<le> length m \<Longrightarrow> ring_write m p xs = take p m @ xs @ drop (p + length xs) m"
proof (induction xs arbitrary: m p)
  case Nil
  then show ?case by simp
next
  case (Cons x xs)
  show ?case
  proof (cases xs)
    case Nil
    with Cons.prems show ?thesis
      by (simp add: upd_conv_take_nth_drop)
  next
    case (Cons y ys)
    with Cons.prems have lt: "p + 1 < length m" by simp
    then have "ring_write (m[p := x]) ((p + 1) mod length m) xs
        = take (p + 1) (m[p := x]) @ xs @ drop (p + 1 + length xs) (m[p := x])"
      using Cons.prems Cons.IH [of "p + 1" "m[p := x]"] by simp
    with lt show ?thesis
      by (simp add: take_Suc_conv_app_nth)
  qed
qed

lemma ring_index: "p < s \<Longrightarrow> k \<le> s \<Longrightarrow> (p + k) mod s = (if p + k < s then p + k else p + k - s)"
  for p k s :: nat
  by (simp add: le_mod_geq)

lemma ring_write_nth:
  assumes "p < length m" and "j < length m"
  shows "length xs \<le> length m \<Longrightarrow>
    ring_write m p xs ! j =
      (if (j + length m - p) mod length m < length xs then xs ! ((j + length m - p) mod length m)
       else m ! j)"
proof (induction xs rule: rev_induct)
  case Nil
  show ?case by simp
next
  case (snoc x xs)
  then have len: "length xs < length m" by simp
  have d: "(j + length m - p) mod length m = (if j < p then j + length m - p else j - p)"
    using assms by (simp add: le_mod_geq)
  have q: "(p + length xs) mod length m
      = (if p + length xs < length m then p + length xs else p + length xs - length m)"
    using assms len by (simp add: ring_index)
  show ?case
    using snoc.IH len assms
    by (auto simp add: ring_write_append d q nth_append nth_list_update)
qed

lemma ring_read_nth: "i < k \<Longrightarrow> ring_read m p k ! i = m ! ((p + i) mod length m)"
  by (simp add: ring_read_def)

lemma ring_read_add:
  "ring_read m p (a + b) = ring_read m p a @ ring_read m ((p + a) mod length m) b"
proof (rule nth_equalityI)
  show "length (ring_read m p (a + b))
      = length (ring_read m p a @ ring_read m ((p + a) mod length m) b)"
    by simp
next
  fix i
  assume "i < length (ring_read m p (a + b))"
  then have i: "i < a + b" by simp
  show "ring_read m p (a + b) ! i
      = (ring_read m p a @ ring_read m ((p + a) mod length m) b) ! i"
  proof (cases "i < a")
    case True
    with i show ?thesis
      by (simp add: ring_read_def nth_append)
  next
    case False
    have "((p + a) mod length m + (i - a)) mod length m = (p + a + (i - a)) mod length m"
      by (rule mod_add_left_eq)
    also have "p + a + (i - a) = p + i"
      using False by simp
    finally have "((p + a) mod length m + (i - a)) mod length m = (p + i) mod length m" .
    moreover from False i have "i - a < b"
      by simp
    ultimately show ?thesis
      using False i by (simp add: ring_read_nth nth_append del: mod_add_left_eq)
  qed
qed

lemma ring_read_contiguous:
  "p + n \<le> length m \<Longrightarrow> ring_read m p n = take n (drop p m)"
  by (simp add: ring_read_def list_eq_iff_nth_eq)

lemma drop_ring_read:
  "drop a (ring_read m p k) = ring_read m ((p + a) mod length m) (k - a)"
  by (auto simp: ring_read_def list_eq_iff_nth_eq mod_simps ac_simps)

lemma take_ring_read:
  "take a (ring_read m p k) = ring_read m p (min a k)"
  by (simp add: ring_read_def list_eq_iff_nth_eq)

lemma used_valid:
  "rb_valid rb \<Longrightarrow> ringbuf_bytes_used rb =
     (if head rb \<ge> tail rb then head rb - tail rb else size_rb rb + head rb - tail rb)"
  by (auto simp: rb_valid_def ringbuf_bytes_used_def ringbuf_bytes_free_def
        ringbuf_capacity_def ringbuf_buffer_size_def)

lemma free_valid:
  "rb_valid rb \<Longrightarrow> ringbuf_bytes_free rb =
     (if head rb \<ge> tail rb then size_rb rb - 1 - (head rb - tail rb) else tail rb - head rb - 1)"
  by (auto simp: rb_valid_def ringbuf_bytes_used_def ringbuf_bytes_free_def
        ringbuf_capacity_def ringbuf_buffer_size_def)

lemma overflow_tail_valid:
  "rb_valid dst \<Longrightarrow> overflow_tail dst = Inr (dst\<lparr>tail := (head dst + 1) mod size_rb dst\<rparr>)"
  by (auto simp: overflow_tail_def ringbuf_nextp_def ringbuf_end_def ringbuf_buffer_size_def
        rb_valid_def ringbuf_is_full_def ringbuf_bytes_free_def ringbuf_capacity_def Let_def
        mod_Suc)

section \<open>The loops in closed form\<close>

lemma memcpy_bytes_ring_write:
  "p + n \<le> length d \<Longrightarrow> q + n \<le> length s \<Longrightarrow>
   memcpy_bytes d p s q n = ring_write d p (take n (drop q s))"
  by (simp add: memcpy_bytes_def ring_write_contiguous min_absorb2)

lemma ring_write_take_add:
  assumes "p < length m"
  shows "ring_write (ring_write m p (take n xs)) ((p + n) mod length m) (take k (drop n xs))
    = ring_write m p (take (n + k) xs)"
proof (cases "n \<le> length xs")
  case True
  then have "length (take n xs) = n" by simp
  with ring_write_append [OF assms, of "take n xs" "take k (drop n xs)"] show ?thesis
    by (simp add: take_add)
next
  case False
  then show ?thesis by simp
qed

lemma mod_advance: "((h + n) mod s + k) mod s = (h + (n + k)) mod s" for h n k s :: nat
  by (simp add: mod_add_left_eq add.assoc)

lemma memcpy_into_loop_eq:
  "rb_valid dst \<Longrightarrow> nread \<le> count \<Longrightarrow> count \<le> length src \<Longrightarrow>
   memcpy_into_loop dst src count nread =
     Inr (dst\<lparr>buf := ring_write (buf dst) (head dst) (take (count - nread) (drop nread src)),
              head := (head dst + (count - nread)) mod size_rb dst\<rparr>)"
proof (induction "count - nread" arbitrary: dst nread rule: less_induct)
  case less
  show ?case
  proof (cases "nread = count")
    case True
    with less.prems show ?thesis
      by (simp add: memcpy_into_loop.simps rb_valid_def)
  next
    case False
    define n where "n = min (size_rb dst - head dst) (count - nread)"
    define dst2 where "dst2 = dst\<lparr>buf := ring_write (buf dst) (head dst) (take n (drop nread src)),
        head := (head dst + n) mod size_rb dst\<rparr>"
    from False less.prems have n: "0 < n" "n \<le> size_rb dst - head dst" "nread + n \<le> count"
      by (auto simp: n_def rb_valid_def)
    from less.prems n have valid2: "rb_valid dst2"
      by (simp add: dst2_def rb_valid_def)
    have step: "memcpy_into_loop dst src count nread = memcpy_into_loop dst2 src count (nread + n)"
      using False less.prems n
      by (subst memcpy_into_loop.simps)
        (auto simp: Let_def ringbuf_end_def ringbuf_buffer_size_def rb_valid_def
          memcpy_bytes_ring_write n_def [symmetric] dst2_def)
    have "memcpy_into_loop dst2 src count (nread + n) =
      Inr (dst2\<lparr>buf := ring_write (buf dst2) (head dst2)
                 (take (count - (nread + n)) (drop (nread + n) src)),
               head := (head dst2 + (count - (nread + n))) mod size_rb dst2\<rparr>)"
      using n less.prems valid2 by (intro less.hyps) auto
    also have "\<dots> = Inr (dst\<lparr>buf := ring_write (buf dst) (head dst) (take (count - nread) (drop nread src)),
              head := (head dst + (count - nread)) mod size_rb dst\<rparr>)"
    proof -
      have h: "head dst < length (buf dst)" and l: "length (buf dst) = size_rb dst"
        using less.prems by (simp_all add: rb_valid_def)
      have "ring_write (ring_write (buf dst) (head dst) (take n (drop nread src)))
              ((head dst + n) mod length (buf dst))
              (take (count - (nread + n)) (drop n (drop nread src)))
          = ring_write (buf dst) (head dst) (take (n + (count - (nread + n))) (drop nread src))"
        by (rule ring_write_take_add [OF h])
      moreover have k: "n + (count - (nread + n)) = count - nread"
        using n by simp
      moreover have "((head dst + n) mod size_rb dst + (count - (nread + n))) mod size_rb dst
          = (head dst + (count - nread)) mod size_rb dst"
        by (simp only: mod_advance k)
      ultimately show ?thesis
        by (simp add: dst2_def l add.commute)
    qed
    finally show ?thesis
      using step by simp
  qed
qed

lemma memset_bytes_ring_write:
  "p + n \<le> length d \<Longrightarrow> memset_bytes d p c n = ring_write d p (replicate n (word_of_int c))"
  by (simp add: memset_bytes_def ring_write_contiguous)

lemma memset_loop_eq:
  "rb_valid dst \<Longrightarrow> nwritten \<le> count \<Longrightarrow>
   memset_loop dst c count nwritten =
     Inr (dst\<lparr>buf := ring_write (buf dst) (head dst) (replicate (count - nwritten) (word_of_int c)),
              head := (head dst + (count - nwritten)) mod size_rb dst\<rparr>, count)"
proof (induction "count - nwritten" arbitrary: dst nwritten rule: less_induct)
  case less
  show ?case
  proof (cases "nwritten = count")
    case True
    with less.prems show ?thesis
      by (simp add: memset_loop.simps rb_valid_def)
  next
    case False
    define n where "n = min (size_rb dst - head dst) (count - nwritten)"
    define dst2 where "dst2 = dst\<lparr>buf := ring_write (buf dst) (head dst) (replicate n (word_of_int c)),
        head := (head dst + n) mod size_rb dst\<rparr>"
    from False less.prems have n: "0 < n" "n \<le> size_rb dst - head dst" "nwritten + n \<le> count"
      by (auto simp: n_def rb_valid_def)
    from less.prems n have valid2: "rb_valid dst2"
      by (simp add: dst2_def rb_valid_def)
    have step: "memset_loop dst c count nwritten = memset_loop dst2 c count (nwritten + n)"
      using False less.prems n
      by (subst memset_loop.simps)
        (auto simp: Let_def ringbuf_end_def ringbuf_buffer_size_def rb_valid_def
          memset_bytes_ring_write n_def [symmetric] dst2_def)
    have "memset_loop dst2 c count (nwritten + n) =
      Inr (dst2\<lparr>buf := ring_write (buf dst2) (head dst2)
                 (replicate (count - (nwritten + n)) (word_of_int c)),
               head := (head dst2 + (count - (nwritten + n))) mod size_rb dst2\<rparr>, count)"
      using n less.prems valid2 by (intro less.hyps) auto
    also have "\<dots> = Inr (dst\<lparr>buf := ring_write (buf dst) (head dst)
                 (replicate (count - nwritten) (word_of_int c)),
              head := (head dst + (count - nwritten)) mod size_rb dst\<rparr>, count)"
    proof -
      have h: "head dst < length (buf dst)" and l: "length (buf dst) = size_rb dst"
        using less.prems by (simp_all add: rb_valid_def)
      have k: "n + (count - (nwritten + n)) = count - nwritten"
        using n by simp
      have "ring_write (ring_write (buf dst) (head dst) (replicate n (word_of_int c)))
              ((head dst + n) mod length (buf dst))
              (replicate (count - (nwritten + n)) (word_of_int c))
          = ring_write (buf dst) (head dst) (replicate (count - nwritten) (word_of_int c))"
        using ring_write_append [OF h, of "replicate n (word_of_int c)"
            "replicate (count - (nwritten + n)) (word_of_int c)"]
        by (simp only: replicate_add [symmetric] k length_replicate)
      moreover have "((head dst + n) mod size_rb dst + (count - (nwritten + n))) mod size_rb dst
          = (head dst + (count - nwritten)) mod size_rb dst"
        by (simp only: mod_advance k)
      ultimately show ?thesis
        by (simp add: dst2_def l)
    qed
    finally show ?thesis
      using step by simp
  qed
qed

lemma memcpy_from_loop_eq:
  "rb_valid src \<Longrightarrow> nwritten \<le> count \<Longrightarrow> count \<le> length u8dst \<Longrightarrow>
   memcpy_from_loop u8dst src count nwritten =
     Inr (take nwritten u8dst @ ring_read (buf src) (tail src) (count - nwritten) @ drop count u8dst,
          src\<lparr>tail := (tail src + (count - nwritten)) mod size_rb src\<rparr>)"
proof (induction "count - nwritten" arbitrary: u8dst src nwritten rule: less_induct)
  case less
  show ?case
  proof (cases "nwritten = count")
    case True
    with less.prems show ?thesis
      by (simp add: memcpy_from_loop.simps rb_valid_def ring_read_def)
  next
    case False
    define n where "n = min (size_rb src - tail src) (count - nwritten)"
    define src2 where "src2 = src\<lparr>tail := (tail src + n) mod size_rb src\<rparr>"
    define u8dst1 where "u8dst1 =
      take nwritten u8dst @ ring_read (buf src) (tail src) n @ drop (nwritten + n) u8dst"
    from False less.prems have n: "0 < n" "n \<le> size_rb src - tail src" "nwritten + n \<le> count"
      by (auto simp: n_def rb_valid_def)
    from less.prems n have valid2: "rb_valid src2"
      by (simp add: src2_def rb_valid_def)
    from less.prems n have len1: "length u8dst1 = length u8dst"
      by (simp add: u8dst1_def)
    have l: "length (buf src) = size_rb src"
      using less.prems by (simp add: rb_valid_def)
    have step: "memcpy_from_loop u8dst src count nwritten
        = memcpy_from_loop u8dst1 src2 count (nwritten + n)"
      using False less.prems n
      by (subst memcpy_from_loop.simps)
        (auto simp: Let_def ringbuf_end_def ringbuf_buffer_size_def rb_valid_def
          memcpy_bytes_def ring_read_contiguous n_def [symmetric] src2_def u8dst1_def)
    have "memcpy_from_loop u8dst1 src2 count (nwritten + n) =
      Inr (take (nwritten + n) u8dst1
             @ ring_read (buf src2) (tail src2) (count - (nwritten + n)) @ drop count u8dst1,
           src2\<lparr>tail := (tail src2 + (count - (nwritten + n))) mod size_rb src2\<rparr>)"
      using n less.prems valid2 len1 by (intro less.hyps) auto
    also have "\<dots> = Inr (take nwritten u8dst
             @ ring_read (buf src) (tail src) (count - nwritten) @ drop count u8dst,
          src\<lparr>tail := (tail src + (count - nwritten)) mod size_rb src\<rparr>)"
    proof -
      have k: "n + (count - (nwritten + n)) = count - nwritten"
        using n by simp
      have a: "take (nwritten + n) u8dst1 = take nwritten u8dst @ ring_read (buf src) (tail src) n"
        using less.prems n by (simp add: u8dst1_def)
      have b: "drop count u8dst1 = drop count u8dst"
        using less.prems n by (simp add: u8dst1_def)
      have c: "ring_read (buf src) (tail src) n
            @ ring_read (buf src) ((tail src + n) mod size_rb src) (count - (nwritten + n))
          = ring_read (buf src) (tail src) (count - nwritten)"
        using ring_read_add [of "buf src" "tail src" n "count - (nwritten + n)"]
        by (simp only: k l)
      have d: "((tail src + n) mod size_rb src + (count - (nwritten + n))) mod size_rb src
          = (tail src + (count - nwritten)) mod size_rb src"
        by (simp only: mod_advance k)
      show ?thesis
        by (simp add: a b c [symmetric] d src2_def)
    qed
    finally show ?thesis
      using step by simp
  qed
qed

lemma copy_chunk_bounds:
  fixes dst src :: ringbuf
  assumes "ncopied \<noteq> count" "rb_valid dst" "rb_valid src" "ncopied \<le> count"
    and n_def: "n = min (size_rb dst - head dst) (min (size_rb src - tail src) (count - ncopied))"
  shows "0 < n" "n \<le> size_rb dst - head dst"
        "n \<le> size_rb src - tail src" "ncopied + n \<le> count"
proof -
  show "0 < n"
    using assms by (simp add: rb_valid_def)
  show "n \<le> size_rb dst - head dst" "n \<le> size_rb src - tail src"
    by (simp_all add: n_def min_le_iff_disj)
  have "n \<le> count - ncopied"
    by (simp add: n_def min_le_iff_disj)
  with assms(4) show "ncopied + n \<le> count"
    by arith
qed

lemma copy_chunk_bytes:
  fixes dst src :: ringbuf
  assumes "rb_valid dst" "rb_valid src"
     "0 < n" "n \<le> size_rb dst - head dst"
        "n \<le> size_rb src - tail src" 
  shows "memcpy_bytes (buf dst) (head dst) (buf src) (tail src) n
        = ring_write (buf dst) (head dst) (ring_read (buf src) (tail src) n)"
  using assms by (simp add: memcpy_bytes_ring_write ring_read_contiguous rb_valid_def)

lemma copy_loop_step:
  fixes dst src :: ringbuf
  assumes v: "rb_valid dst" "rb_valid src" and lt: "ncopied < count"
    and n_def: "n = min (size_rb dst - head dst) (min (size_rb src - tail src) (count - ncopied))"
  shows "copy_loop dst src count ncopied =
    copy_loop (dst\<lparr>buf := ring_write (buf dst) (head dst) (ring_read (buf src) (tail src) n),
                   head := (head dst + n) mod size_rb dst\<rparr>)
              (src\<lparr>tail := (tail src + n) mod size_rb src\<rparr>) count (ncopied + n)"
proof -
  from lt have ne: "ncopied \<noteq> count" and le: "ncopied \<le> count"
    by simp_all
  have n: "0 < n" "n \<le> size_rb dst - head dst" "n \<le> size_rb src - tail src"
    by (rule copy_chunk_bounds [OF ne v le n_def])+
  have m: "memcpy_bytes (buf dst) (head dst) (buf src) (tail src) n
      = ring_write (buf dst) (head dst) (ring_read (buf src) (tail src) n)"
    using v n by (rule copy_chunk_bytes)
  have c1: "\<not> count < ncopied" "tail src < size_rb src" "head dst < size_rb dst"
    using lt v by (simp_all add: rb_valid_def)
  have nsrc: "min (size_rb dst - head dst) (min (size_rb src - tail src) (count - ncopied)) = n"
    by (simp only: n_def)
  have hm: "(head dst + n) mod size_rb dst = (if head dst + n = size_rb dst then 0 else head dst + n)"
    using n c1 by simp
  have tm: "(tail src + n) mod size_rb src = (if tail src + n = size_rb src then 0 else tail src + n)"
    using n c1 by simp
  show ?thesis
    apply (subst copy_loop.simps)
    apply (simp only: ne c1 if_False not_not Let_def ringbuf_end_def ringbuf_buffer_size_def nsrc)
    apply (simp only: m)
    apply (simp add: hm tm)
    done
qed

lemma copy_loop_eq:
  "rb_valid dst \<Longrightarrow> rb_valid src \<Longrightarrow> ncopied \<le> count \<Longrightarrow>
   copy_loop dst src count ncopied =
     Inr (dst\<lparr>buf := ring_write (buf dst) (head dst)
                       (ring_read (buf src) (tail src) (count - ncopied)),
              head := (head dst + (count - ncopied)) mod size_rb dst\<rparr>,
          src\<lparr>tail := (tail src + (count - ncopied)) mod size_rb src\<rparr>)"
proof (induction "count - ncopied" arbitrary: dst src ncopied rule: less_induct)
  case less
  show ?case
  proof (cases "ncopied = count")
    case True
    with less.prems show ?thesis
      by (simp add: copy_loop.simps rb_valid_def ring_read_def)
  next
    case False
    with less.prems have lt: "ncopied < count"
      by simp
    define n where "n = min (size_rb dst - head dst)
      (min (size_rb src - tail src) (count - ncopied))"
    define src2 where "src2 = src\<lparr>tail := (tail src + n) mod size_rb src\<rparr>"
    define dst2 where "dst2 = dst\<lparr>buf := ring_write (buf dst) (head dst)
        (ring_read (buf src) (tail src) n), head := (head dst + n) mod size_rb dst\<rparr>"
    have n: "0 < n" "n \<le> size_rb dst - head dst"
        "n \<le> size_rb src - tail src" "ncopied + n \<le> count"
      by (rule copy_chunk_bounds [OF False less.prems n_def])+
    have ls: "length (buf src) = size_rb src" and ld: "length (buf dst) = size_rb dst"
      and h: "head dst < length (buf dst)" and pos: "0 < size_rb dst" "0 < size_rb src"
      and hs: "head src < size_rb src" and td: "tail dst < size_rb dst"
      using less.prems by (simp_all add: rb_valid_def)
    have valid2: "rb_valid dst2" "rb_valid src2"
      using ls ld pos hs td by (simp_all add: dst2_def src2_def rb_valid_def)
    have step: "copy_loop dst src count ncopied = copy_loop dst2 src2 count (ncopied + n)"
      unfolding dst2_def src2_def by (rule copy_loop_step [OF less.prems(1,2) lt n_def])
    have less': "count - (ncopied + n) < count - ncopied"
      using n lt by arith
    have "copy_loop dst2 src2 count (ncopied + n) =
      Inr (dst2\<lparr>buf := ring_write (buf dst2) (head dst2)
                       (ring_read (buf src2) (tail src2) (count - (ncopied + n))),
              head := (head dst2 + (count - (ncopied + n))) mod size_rb dst2\<rparr>,
          src2\<lparr>tail := (tail src2 + (count - (ncopied + n))) mod size_rb src2\<rparr>)"
      by (rule less.hyps [OF less' valid2 n(4)])
    also have "\<dots> = Inr (dst\<lparr>buf := ring_write (buf dst) (head dst)
                       (ring_read (buf src) (tail src) (count - ncopied)),
              head := (head dst + (count - ncopied)) mod size_rb dst\<rparr>,
          src\<lparr>tail := (tail src + (count - ncopied)) mod size_rb src\<rparr>)"
    proof -
      have k: "n + (count - (ncopied + n)) = count - ncopied"
        using n by simp
      have c: "ring_read (buf src) (tail src) n
            @ ring_read (buf src) ((tail src + n) mod size_rb src) (count - (ncopied + n))
          = ring_read (buf src) (tail src) (count - ncopied)"
        using ring_read_add [of "buf src" "tail src" n "count - (ncopied + n)"]
        by (simp only: k ls)
      have w: "ring_write (ring_write (buf dst) (head dst) (ring_read (buf src) (tail src) n))
            ((head dst + n) mod size_rb dst)
            (ring_read (buf src) ((tail src + n) mod size_rb src) (count - (ncopied + n)))
          = ring_write (buf dst) (head dst) (ring_read (buf src) (tail src) (count - ncopied))"
        using ring_write_append [OF h, of "ring_read (buf src) (tail src) n"
            "ring_read (buf src) ((tail src + n) mod size_rb src) (count - (ncopied + n))"]
        by (simp only: c length_ring_read ld)
      have d: "((tail src + n) mod size_rb src + (count - (ncopied + n))) mod size_rb src
          = (tail src + (count - ncopied)) mod size_rb src"
        "((head dst + n) mod size_rb dst + (count - (ncopied + n))) mod size_rb dst
          = (head dst + (count - ncopied)) mod size_rb dst"
        by (simp_all only: mod_advance k)
      have "dst2\<lparr>buf := ring_write (buf dst2) (head dst2)
                       (ring_read (buf src2) (tail src2) (count - (ncopied + n))),
              head := (head dst2 + (count - (ncopied + n))) mod size_rb dst2\<rparr>
          = dst\<lparr>buf := ring_write (buf dst) (head dst)
                       (ring_read (buf src) (tail src) (count - ncopied)),
              head := (head dst + (count - ncopied)) mod size_rb dst\<rparr>"
        unfolding dst2_def src2_def by (simp add: w d)
      moreover have "src2\<lparr>tail := (tail src2 + (count - (ncopied + n))) mod size_rb src2\<rparr>
          = src\<lparr>tail := (tail src + (count - ncopied)) mod size_rb src\<rparr>"
        unfolding src2_def by (simp add: d)
      ultimately show ?thesis
        by (simp only:)
    qed
    finally show ?thesis
      using step by (simp only:)
  qed
qed

section \<open>The operations on a valid buffer\<close>

lemma memset_eq:
  assumes "rb_valid dst"
  shows "ringbuf_memset dst c len =
    Inr (min len (size_rb dst),
         ring_put dst (replicate (min len (size_rb dst)) (word_of_int c)))"
proof -
  define w where "w = dst\<lparr>buf := ring_write (buf dst) (head dst)
        (replicate (min len (size_rb dst)) (word_of_int c)),
      head := (head dst + min len (size_rb dst)) mod size_rb dst\<rparr>"
  have loop: "memset_loop dst c (min len (size_rb dst)) 0 = Inr (w, min len (size_rb dst))"
    using memset_loop_eq [OF assms, of 0 "min len (size_rb dst)" c] by (simp add: w_def)
  have "rb_valid w"
    using assms by (simp add: w_def rb_valid_def)
  then have ov: "overflow_tail w = Inr (w\<lparr>tail := (head w + 1) mod size_rb w\<rparr>)"
    by (rule overflow_tail_valid)
  have sw: "size_rb w = size_rb dst"
    by (simp add: w_def)
  show ?thesis
    by (simp add: ringbuf_memset_def ringbuf_buffer_size_def loop ov sw ring_put_def
        w_def [symmetric] Let_def)
qed

lemma memcpy_into_eq:
  assumes "rb_valid dst" and "count \<le> length src"
  shows "ringbuf_memcpy_into dst src count =
    Inr (head (ring_put dst (take count src)), ring_put dst (take count src))"
proof -
  define xs where "xs = take count src"
  define w where "w = dst\<lparr>buf := ring_write (buf dst) (head dst) xs,
      head := (head dst + count) mod size_rb dst\<rparr>"
  have l: "length xs = count"
    using assms(2) by (simp add: xs_def)
  have loop: "memcpy_into_loop dst src count 0 = Inr w"
    using memcpy_into_loop_eq [OF assms(1) _ assms(2), of 0] by (simp add: w_def xs_def)
  have "rb_valid w"
    using assms l by (simp add: w_def rb_valid_def)
  then have ov: "overflow_tail w = Inr (w\<lparr>tail := (head w + 1) mod size_rb w\<rparr>)"
    by (rule overflow_tail_valid)
  have sw: "size_rb w = size_rb dst"
    by (simp add: w_def)
  have "ringbuf_memcpy_into dst src count = Inr (head (ring_put dst xs), ring_put dst xs)"
    by (simp add: ringbuf_memcpy_into_def loop ov sw ring_put_def l w_def [symmetric] Let_def)
  then show ?thesis
    by (simp only: xs_def)
qed

lemma used_ring_drop:
  assumes "rb_valid src" and "count \<le> ringbuf_bytes_used src"
  shows "ringbuf_bytes_used (ring_drop src count) = ringbuf_bytes_used src - count"
proof -
  have "(tail src + count) mod size_rb src
      = (if tail src + count < size_rb src then tail src + count
         else tail src + count - size_rb src)"
    using assms by (intro ring_index) (auto simp: used_valid rb_valid_def split: if_splits)
  moreover have "rb_valid (ring_drop src count)"
    using assms by (simp add: ring_drop_def rb_valid_def)
  ultimately show ?thesis
    using assms by (auto simp: used_valid ring_drop_def rb_valid_def split: if_splits)
qed

lemma memcpy_from_eq:
  assumes "rb_valid src" and "count \<le> ringbuf_bytes_used src" and "count \<le> length dst"
  shows "ringbuf_memcpy_from dst src count =
    Inr (Some (tail (ring_drop src count)),
         ring_read (buf src) (tail src) count @ drop count dst, ring_drop src count)"
proof -
  have loop: "memcpy_from_loop dst src count 0 =
      Inr (ring_read (buf src) (tail src) count @ drop count dst, ring_drop src count)"
    using memcpy_from_loop_eq [OF assms(1) _ assms(3), of 0] by (simp add: ring_drop_def)
  from assms(2) have a: "count + ringbuf_bytes_used (ring_drop src count) = ringbuf_bytes_used src"
    by (simp add: used_ring_drop [OF assms(1,2)])
  from assms(2) have b: "\<not> ringbuf_bytes_used src < count"
    by simp
  show ?thesis
    by (simp add: ringbuf_memcpy_from_def loop a b Let_def)
qed

lemma copy_eq:
  assumes "rb_valid dst" and "rb_valid src" and "count \<le> ringbuf_bytes_used src"
  shows "ringbuf_copy dst src count =
    Inr (Some (head (ring_put dst (ring_read (buf src) (tail src) count))),
         ring_put dst (ring_read (buf src) (tail src) count), ring_drop src count)"
proof -
  define w where "w = dst\<lparr>buf := ring_write (buf dst) (head dst)
        (ring_read (buf src) (tail src) count),
      head := (head dst + count) mod size_rb dst\<rparr>"
  have loop: "copy_loop dst src count 0 = Inr (w, ring_drop src count)"
    using copy_loop_eq [OF assms(1,2), of 0 count] by (simp add: w_def ring_drop_def)
  have "rb_valid w"
    using assms by (simp add: w_def rb_valid_def)
  then have ov: "overflow_tail w = Inr (w\<lparr>tail := (head w + 1) mod size_rb w\<rparr>)"
    by (rule overflow_tail_valid)
  have sw: "size_rb w = size_rb dst"
    by (simp add: w_def)
  from assms(3) have a: "count + ringbuf_bytes_used (ring_drop src count) = ringbuf_bytes_used src"
    by (simp add: used_ring_drop [OF assms(2,3)])
  from assms(3) have b: "\<not> ringbuf_bytes_used src < count"
    by simp
  show ?thesis
    by (simp add: ringbuf_copy_def loop ov sw a b ring_put_def w_def [symmetric] Let_def)
qed

section \<open>The content after a write and after a read\<close>

lemma rb_valid_ring_put: "rb_valid rb \<Longrightarrow> rb_valid (ring_put rb xs)"
  by (simp add: ring_put_def rb_valid_def Let_def)

lemma rb_valid_ring_drop: "rb_valid rb \<Longrightarrow> rb_valid (ring_drop rb count)"
  by (simp add: ring_drop_def rb_valid_def)

lemma used_free: "rb_valid rb \<Longrightarrow> ringbuf_bytes_used rb + ringbuf_bytes_free rb = size_rb rb - 1"
  by (auto simp: used_valid free_valid rb_valid_def)

lemma mod_back: "h < s \<Longrightarrow> ((h + a) mod s + s - h) mod s = a mod s" for h a s :: nat
proof -
  assume h: "h < s"
  then have "(h + a) mod s + s - h = (h + a) mod s + (s - h)"
    by simp
  then have "((h + a) mod s + s - h) mod s = ((h + a) mod s + (s - h)) mod s"
    by simp
  also have "\<dots> = (h + a + (s - h)) mod s"
    by (rule mod_add_left_eq)
  also have "h + a + (s - h) = a + s"
    using h by simp
  also have "(a + s) mod s = a mod s"
    by simp
  finally show ?thesis .
qed

lemma tail_from_head:
  "rb_valid rb \<Longrightarrow>
   tail rb = (head rb + (size_rb rb - ringbuf_bytes_used rb)) mod size_rb rb"
  by (auto simp: used_valid rb_valid_def le_mod_geq)

lemma ring_write_nth_from_head:
  assumes "h < length m" and "length xs \<le> length m"
  shows "ring_write m h xs ! ((h + a) mod length m) =
    (if a mod length m < length xs then xs ! (a mod length m) else m ! ((h + a) mod length m))"
proof -
  from assms(1) have "0 < length m"
    by auto
  then have "(h + a) mod length m < length m"
    by (rule mod_less_divisor)
  from ring_write_nth [OF assms(1) this assms(2)] show ?thesis
    by (simp only: mod_back [OF assms(1)])
qed

lemma used_full:
  "rb_valid r \<Longrightarrow> tail r = (head r + 1) mod size_rb r \<Longrightarrow>
   ringbuf_bytes_used r = size_rb r - 1"
  by (auto simp: used_valid rb_valid_def mod_Suc split: if_splits)

lemma used_ring_put:
  assumes "rb_valid rb" and "length xs \<le> size_rb rb"
  shows "ringbuf_bytes_used (ring_put rb xs) =
    (if length xs > ringbuf_bytes_free rb then size_rb rb - 1
     else ringbuf_bytes_used rb + length xs)"
proof (cases "length xs > ringbuf_bytes_free rb")
  case True
  have v: "rb_valid (ring_put rb xs)"
    using assms(1) by (rule rb_valid_ring_put)
  from True have "tail (ring_put rb xs)
      = (head (ring_put rb xs) + 1) mod size_rb (ring_put rb xs)"
    by (simp add: ring_put_def Let_def)
  from used_full [OF v this] True show ?thesis
    by (simp add: ring_put_def Let_def)
next
  case False
  have v: "rb_valid (ring_put rb xs)"
    using assms(1) by (rule rb_valid_ring_put)
  have idx: "(head rb + length xs) mod size_rb rb
      = (if head rb + length xs < size_rb rb then head rb + length xs
         else head rb + length xs - size_rb rb)"
    using assms by (intro ring_index) (simp_all add: rb_valid_def)
  from False have hd: "head (ring_put rb xs) = (head rb + length xs) mod size_rb rb"
    and tl: "tail (ring_put rb xs) = tail rb"
    and sz: "size_rb (ring_put rb xs) = size_rb rb"
    by (simp_all add: ring_put_def Let_def)
  show ?thesis
    unfolding used_valid [OF v] hd tl sz idx
    using False assms
    by (auto simp: used_valid [OF assms(1)] free_valid [OF assms(1)] rb_valid_def
        split: if_splits)
qed

lemma length_contents [simp]: "length (contents rb) = ringbuf_bytes_used rb"
  by (simp add: contents_def)

lemma contents_ring_drop:
  assumes "rb_valid rb" and "count \<le> ringbuf_bytes_used rb"
  shows "contents (ring_drop rb count) = drop count (contents rb)"
proof -
  have l: "length (buf rb) = size_rb rb"
    using assms(1) by (simp add: rb_valid_def)
  have bf: "buf (ring_drop rb count) = buf rb"
    "tail (ring_drop rb count) = (tail rb + count) mod size_rb rb"
    by (simp_all add: ring_drop_def)
  have "contents (ring_drop rb count)
      = ring_read (buf rb) ((tail rb + count) mod size_rb rb) (ringbuf_bytes_used rb - count)"
    by (simp add: contents_def used_ring_drop [OF assms] bf)
  also have "\<dots> = drop count (contents rb)"
    by (simp add: contents_def drop_ring_read l)
  finally show ?thesis .
qed

lemma contents_ring_put:
  assumes v: "rb_valid rb" and len: "length xs \<le> size_rb rb"
  shows "contents (ring_put rb xs) = drop (length xs - ringbuf_bytes_free rb) (contents rb @ xs)"
proof (rule nth_equalityI)
  show "length (contents (ring_put rb xs))
      = length (drop (length xs - ringbuf_bytes_free rb) (contents rb @ xs))"
    using used_free [OF v] by (auto simp: used_ring_put [OF v len])
next
  fix i
  assume "i < length (contents (ring_put rb xs))"
  then have i: "i < ringbuf_bytes_used (ring_put rb xs)"
    by simp
  define s where "s = size_rb rb"
  define h where "h = head rb"
  define u where "u = ringbuf_bytes_used rb"
  define f where "f = ringbuf_bytes_free rb"
  define K where "K = length xs"
  define c where "c = (if K > f then K + 1 else s - u)"
  have uf: "u + f = s - 1" and s: "0 < s" and hs: "h < s" and lb: "length (buf rb) = s"
    and Ks: "K \<le> s"
    using used_free [OF v] v len by (simp_all add: s_def h_def u_def f_def K_def rb_valid_def)
  have t: "tail rb = (h + (s - u)) mod s"
    using tail_from_head [OF v] by (simp add: s_def h_def u_def)
  have i': "i < (if K > f then s - 1 else u + K)"
    using i by (simp only: used_ring_put [OF v len] s_def u_def f_def K_def)
  have t': "tail (ring_put rb xs) = (h + c) mod s"
    by (simp add: ring_put_def Let_def c_def t f_def K_def s_def h_def mod_Suc_eq)
  have b': "buf (ring_put rb xs) = ring_write (buf rb) h xs"
    by (simp add: ring_put_def Let_def h_def)
  have "contents (ring_put rb xs) ! i = ring_write (buf rb) h xs ! ((h + (c + i)) mod s)"
    using i by (simp add: contents_def ring_read_nth b' t' lb mod_advance)
  also have "\<dots> = (if (c + i) mod s < K then xs ! ((c + i) mod s)
      else buf rb ! ((h + (c + i)) mod s))"
    using ring_write_nth_from_head [of h "buf rb" xs "c + i"] hs Ks
    by (simp add: lb K_def)
  also have "\<dots> = (contents rb @ xs) ! (K - f + i)"
  proof (cases "K > f")
    case True
    then have c: "c = K + 1"
      by (simp add: c_def)
    from True i' have i'': "i < s - 1"
      by simp
    show ?thesis
    proof (cases "K + 1 + i < s")
      case less: True
      then have m: "(c + i) mod s = K + 1 + i"
        by (simp add: c)
      from less True uf have e: "K - f + i < u" and e': "s - u + (K - f + i) = c + i"
        by (simp_all add: c)
      have "(contents rb @ xs) ! (K - f + i) = buf rb ! ((tail rb + (K - f + i)) mod s)"
        using e by (simp add: nth_append contents_def ring_read_nth lb u_def [symmetric])
      also have "(tail rb + (K - f + i)) mod s = (h + (c + i)) mod s"
        by (simp only: t mod_advance e')
      finally show ?thesis
        by (simp add: m)
    next
      case False
      with Ks i'' have m: "(c + i) mod s = K + 1 + i - s"
        by (simp add: c le_mod_geq)
      from False True uf i'' have e: "\<not> K - f + i < u" and e': "K - f + i - u = K + 1 + i - s"
        and lt: "K + 1 + i - s < K"
        by simp_all
      have "(contents rb @ xs) ! (K - f + i) = xs ! (K + 1 + i - s)"
        using e by (simp add: nth_append u_def [symmetric] e')
      with lt show ?thesis
        by (simp add: m)
    qed
  next
    case False
    then have c: "c = s - u" and Kf: "K - f = 0"
      by (simp_all add: c_def)
    from False i' have i'': "i < u + K"
      by simp
    show ?thesis
    proof (cases "i < u")
      case less: True
      with uf s have m: "(c + i) mod s = s - u + i"
        by (simp add: c)
      from False uf s have ge: "\<not> s - u + i < K"
        by simp
      have "(contents rb @ xs) ! (K - f + i) = buf rb ! ((tail rb + i) mod s)"
        using less by (simp add: Kf nth_append contents_def ring_read_nth lb u_def [symmetric])
      also have "(tail rb + i) mod s = (h + (c + i)) mod s"
        by (simp only: t mod_advance c)
      finally show ?thesis
        using ge by (simp add: m)
    next
      case ge: False
      from ge uf s i'' False have "i - u < s" and "c + i = s + (i - u)"
        by (simp_all add: c)
      then have m: "(c + i) mod s = i - u"
        by simp
      from ge i'' have lt: "i - u < K"
        by simp
      have "(contents rb @ xs) ! (K - f + i) = xs ! (i - u)"
        using ge by (simp add: Kf nth_append u_def [symmetric])
      with lt show ?thesis
        by (simp add: m)
    qed
  qed
  also have "\<dots> = drop (K - f) (contents rb @ xs) ! i"
    by (rule nth_drop [symmetric]) (simp add: K_def)
  also have "K - f = length xs - ringbuf_bytes_free rb"
    by (simp only: K_def f_def)
  finally show "contents (ring_put rb xs) ! i
      = drop (length xs - ringbuf_bytes_free rb) (contents rb @ xs) ! i" .
qed

section \<open>Empty and full buffers\<close>

lemma used_zero_iff: "rb_valid rb \<Longrightarrow> ringbuf_bytes_used rb = 0 \<longleftrightarrow> head rb = tail rb"
  by (auto simp: used_valid rb_valid_def)

lemma is_empty_iff: "rb_valid rb \<Longrightarrow> ringbuf_is_empty rb \<longleftrightarrow> head rb = tail rb"
  by (auto simp: ringbuf_is_empty_def free_valid ringbuf_capacity_def ringbuf_buffer_size_def
      rb_valid_def)

lemma free_empty:
  "rb_valid rb \<Longrightarrow> head rb = tail rb \<Longrightarrow> ringbuf_bytes_free rb = ringbuf_capacity rb"
  by (simp add: free_valid ringbuf_capacity_def ringbuf_buffer_size_def)

lemma contents_empty: "rb_valid rb \<Longrightarrow> head rb = tail rb \<Longrightarrow> contents rb = []"
  using used_zero_iff [of rb] by (simp add: contents_def ring_read_def)

lemma is_full_ring_put:
  assumes "rb_valid rb" and "length xs \<le> size_rb rb" and "ringbuf_bytes_free rb \<le> length xs"
  shows "ringbuf_is_full (ring_put rb xs)"
proof -
  have "ringbuf_bytes_used (ring_put rb xs) = size_rb rb - 1"
    using assms used_free [OF assms(1)] by (auto simp: used_ring_put [OF assms(1,2)])
  moreover have "size_rb (ring_put rb xs) = size_rb rb"
    by (simp add: ring_put_def Let_def)
  ultimately show ?thesis
    using used_free [OF rb_valid_ring_put [OF assms(1), of xs]]
    by (simp add: ringbuf_is_full_def)
qed

section \<open>Arrays of the caller that are too short\<close>

lemma memcpy_into_loop_step:
  fixes dst :: ringbuf
  assumes v: "rb_valid dst" and lt: "nread < count"
    and n_def: "n = min (size_rb dst - head dst) (count - nread)"
  shows "memcpy_into_loop dst src count nread =
    (if length src < nread + n then Inl OutOfBounds
     else memcpy_into_loop
            (dst\<lparr>buf := memcpy_bytes (buf dst) (head dst) src nread n,
                 head := (head dst + n) mod size_rb dst\<rparr>) src count (nread + n))"
proof -
  have c1: "nread \<noteq> count" "\<not> count < nread" "head dst < size_rb dst"
    using lt v by (simp_all add: rb_valid_def)
  have n: "0 < n" "n \<le> size_rb dst - head dst"
    using c1 lt by (simp_all add: n_def)
  have nn: "min (size_rb dst - head dst) (count - nread) = n"
    by (simp only: n_def)
  have hm: "(head dst + n) mod size_rb dst = (if head dst + n = size_rb dst then 0 else head dst + n)"
    using n c1 by simp
  show ?thesis
    apply (subst memcpy_into_loop.simps)
    apply (simp only: c1 if_False not_not Let_def ringbuf_end_def ringbuf_buffer_size_def nn)
    apply (simp add: hm)
    done
qed

lemma memcpy_into_loop_oob:
  "rb_valid dst \<Longrightarrow> nread \<le> length src \<Longrightarrow> length src < count \<Longrightarrow>
   memcpy_into_loop dst src count nread = Inl OutOfBounds"
proof (induction "count - nread" arbitrary: dst nread rule: less_induct)
  case less
  define n where "n = min (size_rb dst - head dst) (count - nread)"
  from less.prems have lt: "nread < count"
    by simp
  have hs: "head dst < size_rb dst"
    using less.prems(1) by (simp add: rb_valid_def)
  with lt have n: "0 < n" "nread + n \<le> count"
    by (simp_all add: n_def)
  show ?case
  proof (cases "length src < nread + n")
    case True
    then show ?thesis
      by (simp add: memcpy_into_loop_step [OF less.prems(1) lt n_def])
  next
    case False
    have nb: "n \<le> size_rb dst - head dst"
      by (simp add: n_def)
    have "memcpy_bytes (buf dst) (head dst) src nread n
        = ring_write (buf dst) (head dst) (take n (drop nread src))"
      using less.prems(1) False nb hs
      by (intro memcpy_bytes_ring_write) (simp_all add: rb_valid_def)
    then have "length (memcpy_bytes (buf dst) (head dst) src nread n) = length (buf dst)"
      by simp
    then have v2: "rb_valid (dst\<lparr>buf := memcpy_bytes (buf dst) (head dst) src nread n,
        head := (head dst + n) mod size_rb dst\<rparr>)"
      using less.prems(1) by (simp add: rb_valid_def)
    have dec: "count - (nread + n) < count - nread"
      using n lt by arith
    from False have "nread + n \<le> length src"
      by simp
    from less.hyps [OF dec v2 this less.prems(3)] False show ?thesis
      by (simp add: memcpy_into_loop_step [OF less.prems(1) lt n_def])
  qed
qed

lemma memcpy_from_loop_step:
  fixes src :: ringbuf
  assumes v: "rb_valid src" and lt: "nwritten < count"
    and n_def: "n = min (size_rb src - tail src) (count - nwritten)"
  shows "memcpy_from_loop u8dst src count nwritten =
    (if length u8dst < nwritten + n then Inl OutOfBounds
     else memcpy_from_loop (memcpy_bytes u8dst nwritten (buf src) (tail src) n)
            (src\<lparr>tail := (tail src + n) mod size_rb src\<rparr>) count (nwritten + n))"
proof -
  have c1: "nwritten \<noteq> count" "\<not> count < nwritten" "tail src < size_rb src"
    using lt v by (simp_all add: rb_valid_def)
  have n: "0 < n" "n \<le> size_rb src - tail src"
    using c1 lt by (simp_all add: n_def)
  have nn: "min (size_rb src - tail src) (count - nwritten) = n"
    by (simp only: n_def)
  have tm: "(tail src + n) mod size_rb src = (if tail src + n = size_rb src then 0 else tail src + n)"
    using n c1 by simp
  show ?thesis
    apply (subst memcpy_from_loop.simps)
    apply (simp only: c1 if_False not_not Let_def ringbuf_end_def ringbuf_buffer_size_def nn)
    apply (simp add: tm)
    done
qed

lemma memcpy_from_loop_oob:
  "rb_valid src \<Longrightarrow> nwritten \<le> length u8dst \<Longrightarrow> length u8dst < count \<Longrightarrow>
   memcpy_from_loop u8dst src count nwritten = Inl OutOfBounds"
proof (induction "count - nwritten" arbitrary: u8dst src nwritten rule: less_induct)
  case less
  define n where "n = min (size_rb src - tail src) (count - nwritten)"
  from less.prems have lt: "nwritten < count"
    by simp
  have ts: "tail src < size_rb src"
    using less.prems(1) by (simp add: rb_valid_def)
  with lt have n: "0 < n" "nwritten + n \<le> count"
    by (simp_all add: n_def)
  show ?case
  proof (cases "length u8dst < nwritten + n")
    case True
    then show ?thesis
      by (simp add: memcpy_from_loop_step [OF less.prems(1) lt n_def])
  next
    case False
    have v2: "rb_valid (src\<lparr>tail := (tail src + n) mod size_rb src\<rparr>)"
      using less.prems(1) by (simp add: rb_valid_def)
    have ls: "length (buf src) = size_rb src"
      using less.prems(1) by (simp add: rb_valid_def)
    have "n \<le> size_rb src - tail src"
      by (simp add: n_def)
    with False ts have l2: "length (memcpy_bytes u8dst nwritten (buf src) (tail src) n) = length u8dst"
      by (simp add: memcpy_bytes_def ls)
    have dec: "count - (nwritten + n) < count - nwritten"
      using n lt by arith
    from False have "nwritten + n \<le> length (memcpy_bytes u8dst nwritten (buf src) (tail src) n)"
      by (simp add: l2)
    moreover from less.prems(3) have "length (memcpy_bytes u8dst nwritten (buf src) (tail src) n) < count"
      by (simp add: l2)
    ultimately show ?thesis
      using less.hyps [OF dec v2] False
      by (simp add: memcpy_from_loop_step [OF less.prems(1) lt n_def])
  qed
qed

section \<open>Every operation keeps a buffer valid\<close>

lemma rb_valid_reset: "rb_valid rb \<Longrightarrow> rb_valid (ringbuf_reset rb)"
  by (simp add: ringbuf_reset_def rb_valid_def)

lemma rb_valid_new:
  assumes "ringbuf_new capacity answer_rb answer_buf h = (Some (p, rb), h')"
    and "capacity + 1 < size_t_modulus"
  shows "rb_valid rb"
proof -
  from assms(1) obtain q f where
    "rb = ringbuf_reset \<lparr>buf = map f [0..<(capacity + 1) mod size_t_modulus], head = 0, tail = 0,
      size_rb = (capacity + 1) mod size_t_modulus\<rparr>"
    by (auto simp: ringbuf_new_def rb_malloc_def Let_def split: option.splits)
  with assms(2) show ?thesis
    by (simp add: ringbuf_reset_def rb_valid_def)
qed

text \<open>
  For the capacity \<open>2 ^ 64 - 1\<close> the sum \<^verbatim>\<open>capacity + 1\<close> wraps to 0: the constructor
  asks for 0 bytes of storage, and the buffer it returns when the allocator answers
  with a block has size 0 and is not valid. No region of \<open>capacity + 1\<close> bytes exists
  for that capacity, and \<open>reachable\<close> leaves the call out.
\<close>

lemma ringbuf_new_wraps:
  "ringbuf_new (size_t_modulus - 1) (Some p) (Some (q, f)) h =
     (Some (p, \<lparr>buf = [], head = 0, tail = 0, size_rb = 0\<rparr>), insert q (insert p h))"
  by (simp add: ringbuf_new_def rb_malloc_def ringbuf_reset_def size_t_modulus_def)

lemma rb_valid_new_static:
  assumes "ringbuf_new_static capacity (Some m) buf_size answer_rb h = Inr (Some (p, rb), h')"
    and "capacity + 1 < size_t_modulus" and "length m = buf_size"
  shows "rb_valid rb"
proof -
  from assms(1) have "buf_size = (capacity + 1) mod size_t_modulus"
    and "rb = ringbuf_reset \<lparr>buf = m, head = 0, tail = 0,
      size_rb = (capacity + 1) mod size_t_modulus\<rparr>"
    by (auto simp: ringbuf_new_static_def rb_malloc_def split: option.splits if_splits)
  with assms(2,3) show ?thesis
    by (simp add: ringbuf_reset_def rb_valid_def)
qed

lemma rb_valid_memset:
  "rb_valid rb \<Longrightarrow> ringbuf_memset rb c len = Inr (r, rb') \<Longrightarrow> rb_valid rb'"
  by (auto simp: memset_eq rb_valid_ring_put)

lemma rb_valid_memcpy_into:
  assumes "rb_valid rb" and "ringbuf_memcpy_into rb src count = Inr (r, rb')"
  shows "rb_valid rb'"
proof (cases "count \<le> length src")
  case True
  from assms(2) have "rb' = ring_put rb (take count src)"
    by (simp add: memcpy_into_eq [OF assms(1) True])
  with assms(1) show ?thesis
    by (simp add: rb_valid_ring_put)
next
  case False
  then have "memcpy_into_loop rb src count 0 = Inl OutOfBounds"
    using assms(1) by (intro memcpy_into_loop_oob) simp_all
  with assms(2) show ?thesis
    by (simp add: ringbuf_memcpy_into_def)
qed

lemma rb_valid_memcpy_from:
  assumes "rb_valid rb" and "ringbuf_memcpy_from dst rb count = Inr (r, dst', rb')"
  shows "rb_valid rb'"
proof (cases "count \<le> ringbuf_bytes_used rb")
  case False
  with assms show ?thesis
    by (simp add: ringbuf_memcpy_from_def)
next
  case used: True
  show ?thesis
  proof (cases "count \<le> length dst")
    case True
    from assms(2) have "rb' = ring_drop rb count"
      by (simp add: memcpy_from_eq [OF assms(1) used True])
    with assms(1) show ?thesis
      by (simp add: rb_valid_ring_drop)
  next
    case False
    then have "memcpy_from_loop dst rb count 0 = Inl OutOfBounds"
      using assms(1) by (intro memcpy_from_loop_oob) simp_all
    with assms(2) used show ?thesis
      by (simp add: ringbuf_memcpy_from_def)
  qed
qed

lemma rb_valid_copy:
  assumes "rb_valid d" and "rb_valid s" and "ringbuf_copy d s count = Inr (r, d', s')"
  shows "rb_valid d'" and "rb_valid s'"
proof -
  have "rb_valid d' \<and> rb_valid s'"
  proof (cases "count \<le> ringbuf_bytes_used s")
    case False
    with assms show ?thesis
      by (simp add: ringbuf_copy_def)
  next
    case True
    from assms(3) have "d' = ring_put d (ring_read (buf s) (tail s) count)"
      and "s' = ring_drop s count"
      by (simp_all add: copy_eq [OF assms(1,2) True])
    with assms(1,2) show ?thesis
      by (simp add: rb_valid_ring_put rb_valid_ring_drop)
  qed
  then show "rb_valid d'" and "rb_valid s'"
    by simp_all
qed

lemma reachable_valid: "reachable rb \<Longrightarrow> rb_valid rb"
proof (induction rule: reachable.induct)
  case (new capacity answer_rb answer_buf h p rb h')
  then show ?case by (rule rb_valid_new)
next
  case (new_static capacity m buf_size answer_rb h p rb h')
  then show ?case by (rule rb_valid_new_static)
next
  case (reset rb)
  then show ?case by (simp add: rb_valid_reset)
next
  case (findchr rb c offset r)
  then show ?case by simp
next
  case (memset rb c len r rb')
  then show ?case by (auto intro: rb_valid_memset)
next
  case (memcpy_into rb src count r rb')
  then show ?case by (auto intro: rb_valid_memcpy_into)
next
  case (memcpy_from rb dst count r dst' rb')
  then show ?case by (auto intro: rb_valid_memcpy_from)
next
  case (copy_dst d s count r d' s')
  then show ?case by (auto intro: rb_valid_copy(1))
next
  case (copy_src d s count r d' s')
  then show ?case by (auto intro: rb_valid_copy(2))
qed

lemma full_iff_next:
  "rb_valid rb \<Longrightarrow>
   ringbuf_bytes_free rb = 0 \<longleftrightarrow> ringbuf_nextp rb (head rb) = Inr (tail rb)"
  by (auto simp: free_valid ringbuf_nextp_def ringbuf_end_def ringbuf_buffer_size_def
      rb_valid_def mod_Suc split: if_splits)

section \<open>The search, chunk by chunk\<close>

lemma first_index_append:
  "first_index c (xs @ ys) =
     (case first_index c xs of
        Some i \<Rightarrow> Some i
      | None \<Rightarrow> map_option (\<lambda>j. length xs + j) (first_index c ys))"
proof (induction xs)
  case Nil
  show ?case
    by (cases "first_index c ys") simp_all
next
  case (Cons x xs)
  then show ?case
    by (cases "first_index c xs"; cases "first_index c ys") simp_all
qed

lemma flat_findchr_chunk:
  assumes "offset < length xs" and "n \<le> length xs - offset"
  shows "flat_findchr xs c offset =
    (case first_index (word_of_int c) (take n (drop offset xs)) of
       Some i \<Rightarrow> offset + i
     | None \<Rightarrow> flat_findchr xs c (offset + n))"
proof -
  have split: "drop offset xs = take n (drop offset xs) @ drop (offset + n) xs"
    by (metis append_take_drop_id drop_drop add.commute)
  have ln: "length (take n (drop offset xs)) = n"
    using assms by simp
  show ?thesis
  proof (cases "first_index (word_of_int c) (take n (drop offset xs))")
    case (Some i)
    then have "first_index (word_of_int c) (drop offset xs) = Some i"
      by (subst split) (simp add: first_index_append)
    with Some assms show ?thesis
      by (simp add: flat_findchr_def)
  next
    case None
    then have "first_index (word_of_int c) (drop offset xs)
        = map_option (\<lambda>j. n + j) (first_index (word_of_int c) (drop (offset + n) xs))"
      using assms(2) by (subst split) (simp add: first_index_append min_absorb2)
    with None assms show ?thesis
      by (auto simp: flat_findchr_def split: option.splits)
  qed
qed

lemma findchr_step:
  assumes v: "rb_valid rb" and lt: "offset < ringbuf_bytes_used rb"
    and n_def: "n = min (size_rb rb - (tail rb + offset) mod size_rb rb)
                       (ringbuf_bytes_used rb - offset)"
  shows "ringbuf_findchr rb c offset =
    (case first_index (word_of_int c) (take n (drop offset (contents rb))) of
       Some i \<Rightarrow> Inr (offset + i)
     | None \<Rightarrow> ringbuf_findchr rb c (offset + n))"
proof -
  define start where "start = (tail rb + offset) mod size_rb rb"
  have s: "0 < size_rb rb" and l: "length (buf rb) = size_rb rb"
    using v by (simp_all add: rb_valid_def)
  then have st: "start < size_rb rb"
    by (simp add: start_def)
  have n: "n \<le> size_rb rb - start" "n \<le> ringbuf_bytes_used rb - offset"
    by (simp_all add: n_def start_def)
  have "take n (drop offset (contents rb)) = ring_read (buf rb) start n"
    using n by (simp add: contents_def drop_ring_read take_ring_read l start_def min_absorb1)
  also have "\<dots> = take n (drop start (buf rb))"
    using n st by (intro ring_read_contiguous) (simp add: l)
  finally have chunk: "memchr (buf rb) start c n
      = first_index (word_of_int c) (take n (drop offset (contents rb)))"
    by (simp add: memchr_def)
  have c1: "\<not> ringbuf_bytes_used rb \<le> offset"
    using lt by simp
  have nn: "min (size_rb rb - start) (ringbuf_bytes_used rb - offset) = n"
    by (simp only: n_def start_def)
  show ?thesis
    apply (subst ringbuf_findchr.simps)
    apply (simp only: Let_def ringbuf_end_def ringbuf_buffer_size_def c1 if_False
        start_def [symmetric] st not_not nn chunk)
    apply simp
    done
qed

lemma findchr_flat_aux:
  "rb_valid rb \<Longrightarrow> ringbuf_findchr rb c offset = Inr (flat_findchr (contents rb) c offset)"
proof (induction "ringbuf_bytes_used rb - offset" arbitrary: offset rule: less_induct)
  case less
  show ?case
  proof (cases "offset < ringbuf_bytes_used rb")
    case False
    then show ?thesis
      by (subst ringbuf_findchr.simps) (simp add: flat_findchr_def Let_def)
  next
    case True
    define n where "n = min (size_rb rb - (tail rb + offset) mod size_rb rb)
                          (ringbuf_bytes_used rb - offset)"
    have s: "0 < size_rb rb"
      using less.prems by (simp add: rb_valid_def)
    then have "(tail rb + offset) mod size_rb rb < size_rb rb"
      by simp
    with True have n: "0 < n" "n \<le> ringbuf_bytes_used rb - offset"
      by (simp_all add: n_def)
    then have dec: "ringbuf_bytes_used rb - (offset + n) < ringbuf_bytes_used rb - offset"
      using True by arith
    have "ringbuf_findchr rb c offset =
      (case first_index (word_of_int c) (take n (drop offset (contents rb))) of
         Some i \<Rightarrow> Inr (offset + i)
       | None \<Rightarrow> ringbuf_findchr rb c (offset + n))"
      using less.prems True n_def by (rule findchr_step)
    also have "\<dots> =
      (case first_index (word_of_int c) (take n (drop offset (contents rb))) of
         Some i \<Rightarrow> Inr (offset + i)
       | None \<Rightarrow> Inr (flat_findchr (contents rb) c (offset + n)))"
      by (simp only: less.hyps [OF dec less.prems])
    also have "\<dots> = Inr (flat_findchr (contents rb) c offset)"
      using flat_findchr_chunk [of offset "contents rb" n c] True n(2)
      by (simp split: option.splits)
    finally show ?thesis .
  qed
qed

section \<open>Round trip\<close>

text \<open>
  C1. Into an empty buffer of capacity at least \<open>n\<close>, \<^verbatim>\<open>ringbuf_memcpy_into\<close> of
  \<open>n\<close> bytes followed by \<^verbatim>\<open>ringbuf_memcpy_from\<close> of \<open>n\<close> bytes both succeed, the bytes
  read are the bytes written, in order, and the buffer is empty afterwards: head and
  tail are equal and no byte is used.
\<close>

theorem round_trip:
  assumes "rb_valid rb" and "head rb = tail rb" and "n \<le> ringbuf_capacity rb"
    and "n \<le> length src" and "n \<le> length dst"
  shows "\<exists>h rb1 t out rb2.
      ringbuf_memcpy_into rb src n = Inr (h, rb1)
    \<and> ringbuf_memcpy_from dst rb1 n = Inr (Some t, out, rb2)
    \<and> take n out = take n src
    \<and> head rb2 = tail rb2 \<and> ringbuf_bytes_used rb2 = 0 \<and> ringbuf_is_empty rb2"
proof -
  define xs where "xs = take n src"
  define rb1 where "rb1 = ring_put rb xs"
  define rb2 where "rb2 = ring_drop rb1 n"
  have lx: "length xs = n"
    using assms(4) by (simp add: xs_def)
  have fr: "ringbuf_bytes_free rb = ringbuf_capacity rb"
    using assms(1,2) by (rule free_empty)
  have sz: "length xs \<le> size_rb rb"
    using assms(3) by (simp add: lx ringbuf_capacity_def ringbuf_buffer_size_def)
  have v1: "rb_valid rb1"
    unfolding rb1_def using assms(1) by (rule rb_valid_ring_put)
  have u0: "ringbuf_bytes_used rb = 0"
    using assms(1,2) by (simp add: used_zero_iff)
  have u1: "ringbuf_bytes_used rb1 = n"
    using assms(3) by (simp add: rb1_def used_ring_put [OF assms(1) sz] fr lx u0)
  have c1: "contents rb1 = xs"
    using assms(3) by (simp add: rb1_def contents_ring_put [OF assms(1) sz] fr lx
        contents_empty [OF assms(1,2)])
  have into: "ringbuf_memcpy_into rb src n = Inr (head rb1, rb1)"
    using memcpy_into_eq [OF assms(1,4)] by (simp add: rb1_def xs_def)
  have "n \<le> ringbuf_bytes_used rb1"
    by (simp add: u1)
  from memcpy_from_eq [OF v1 this assms(5)]
  have "from": "ringbuf_memcpy_from dst rb1 n =
      Inr (Some (tail rb2), ring_read (buf rb1) (tail rb1) n @ drop n dst, rb2)"
    by (simp add: rb2_def)
  have out: "take n (ring_read (buf rb1) (tail rb1) n @ drop n dst) = take n src"
    using c1 assms(4) by (simp add: contents_def u1 xs_def)
  have v2: "rb_valid rb2"
    unfolding rb2_def using v1 by (rule rb_valid_ring_drop)
  have u2: "ringbuf_bytes_used rb2 = 0"
    by (simp add: rb2_def used_ring_drop [OF v1] u1)
  with v2 have e2: "head rb2 = tail rb2" "ringbuf_is_empty rb2"
    by (simp_all add: used_zero_iff is_empty_iff)
  from into "from" out u2 e2 show ?thesis
    by blast
qed

theorem round_trip_witness:
  "\<exists>h rb1 t out rb2.
      ringbuf_memcpy_into \<lparr>buf = [0, 0, 0, 0, 0], head = 3, tail = 3, size_rb = 5\<rparr> [1, 2, 3, 4] 4
        = Inr (h, rb1)
    \<and> ringbuf_memcpy_from [9, 9, 9, 9] rb1 4 = Inr (Some t, out, rb2)
    \<and> take 4 out = [1, 2, 3, 4]
    \<and> head rb2 = tail rb2 \<and> ringbuf_bytes_used rb2 = 0 \<and> ringbuf_is_empty rb2"
proof -
  have a: "rb_valid \<lparr>buf = [0, 0, 0, 0, 0], head = 3, tail = 3, size_rb = 5\<rparr>"
    by code_simp
  have b: "head \<lparr>buf = [0, 0, 0, 0, 0], head = 3, tail = 3, size_rb = 5\<rparr>
      = tail \<lparr>buf = [0, 0, 0, 0, 0], head = 3, tail = 3, size_rb = 5\<rparr>"
    by simp
  have c: "4 \<le> ringbuf_capacity \<lparr>buf = [0, 0, 0, 0, 0], head = 3, tail = 3, size_rb = 5\<rparr>"
    by code_simp
  have d: "4 \<le> length [1, 2, 3, 4 :: byte]" "4 \<le> length [9, 9, 9, 9 :: byte]"
    by simp_all
  from round_trip [OF a b c d] show ?thesis
    by simp
qed

section \<open>Overflow\<close>

text \<open>
  C2. On a valid buffer, a write of \<open>K \<le> size\<close> bytes by \<^verbatim>\<open>ringbuf_memset\<close> or by
  \<^verbatim>\<open>ringbuf_memcpy_into\<close> succeeds, and the content afterwards is the old content
  followed by the written bytes without its first \<open>K - bytes_free\<close> bytes (none when
  \<open>K \<le> bytes_free\<close>): that many of the oldest bytes are lost and the most recent ones
  are kept. The buffer is full afterwards when \<open>K \<ge> bytes_free\<close>. For \<open>K = size\<close> the
  bytes lost are all the old ones and the first of the written ones. In an empty buffer
  of capacity 4, writing \<open>AB\<close> leaves 2 bytes used and 2 free, and writing \<open>CDE\<close> next
  leaves 4 bytes used and the content \<open>BCDE\<close>.
\<close>

theorem overflow_eviction:
  assumes "rb_valid rb" and "K \<le> size_rb rb" and "K \<le> length src"
  shows "(\<exists>rb'. ringbuf_memset rb c K = Inr (K, rb')
            \<and> contents rb' = drop (K - ringbuf_bytes_free rb)
                                   (contents rb @ replicate K (word_of_int c))
            \<and> (ringbuf_bytes_free rb \<le> K \<longrightarrow> ringbuf_is_full rb'))
       \<and> (\<exists>h rb'. ringbuf_memcpy_into rb src K = Inr (h, rb')
            \<and> contents rb' = drop (K - ringbuf_bytes_free rb) (contents rb @ take K src)
            \<and> (ringbuf_bytes_free rb \<le> K \<longrightarrow> ringbuf_is_full rb'))
       \<and> (ringbuf_capacity rb = 4 \<and> head rb = tail rb \<longrightarrow>
           (\<exists>h1 rb1 h2 rb2.
               ringbuf_memcpy_into rb (bytes_of ''AB'') 2 = Inr (h1, rb1)
             \<and> ringbuf_bytes_used rb1 = 2 \<and> ringbuf_bytes_free rb1 = 2
             \<and> ringbuf_memcpy_into rb1 (bytes_of ''CDE'') 3 = Inr (h2, rb2)
             \<and> ringbuf_bytes_used rb2 = 4 \<and> ringbuf_is_full rb2
             \<and> contents rb2 = bytes_of ''BCDE''))"
proof (intro conjI impI)
  define xs where "xs = replicate K (word_of_int c :: byte)"
  have lx: "length xs = K" "length xs \<le> size_rb rb"
    using assms(2) by (simp_all add: xs_def)
  have m: "min K (size_rb rb) = K"
    using assms(2) by simp
  have "ringbuf_memset rb c K = Inr (K, ring_put rb xs)"
    using memset_eq [OF assms(1), of c K] by (simp only: m xs_def)
  moreover have "contents (ring_put rb xs) = drop (K - ringbuf_bytes_free rb) (contents rb @ xs)"
    using contents_ring_put [OF assms(1) lx(2)] by (simp only: lx(1))
  moreover have "ringbuf_bytes_free rb \<le> K \<longrightarrow> ringbuf_is_full (ring_put rb xs)"
    using is_full_ring_put [OF assms(1) lx(2)] by (simp only: lx(1)) blast
  ultimately show "\<exists>rb'. ringbuf_memset rb c K = Inr (K, rb')
            \<and> contents rb' = drop (K - ringbuf_bytes_free rb)
                                   (contents rb @ replicate K (word_of_int c))
            \<and> (ringbuf_bytes_free rb \<le> K \<longrightarrow> ringbuf_is_full rb')"
    unfolding xs_def by blast
next
  define xs where "xs = take K src"
  have lx: "length xs = K" "length xs \<le> size_rb rb"
    using assms(2,3) by (simp_all add: xs_def)
  have "ringbuf_memcpy_into rb src K = Inr (head (ring_put rb xs), ring_put rb xs)"
    using memcpy_into_eq [OF assms(1,3)] by (simp only: xs_def)
  moreover have "contents (ring_put rb xs) = drop (K - ringbuf_bytes_free rb) (contents rb @ xs)"
    using contents_ring_put [OF assms(1) lx(2)] by (simp only: lx(1))
  moreover have "ringbuf_bytes_free rb \<le> K \<longrightarrow> ringbuf_is_full (ring_put rb xs)"
    using is_full_ring_put [OF assms(1) lx(2)] by (simp only: lx(1)) blast
  ultimately show "\<exists>h rb'. ringbuf_memcpy_into rb src K = Inr (h, rb')
            \<and> contents rb' = drop (K - ringbuf_bytes_free rb) (contents rb @ take K src)
            \<and> (ringbuf_bytes_free rb \<le> K \<longrightarrow> ringbuf_is_full rb')"
    unfolding xs_def by blast
next
  assume e: "ringbuf_capacity rb = 4 \<and> head rb = tail rb"
  then have sz: "size_rb rb = 5" and em: "head rb = tail rb"
    using assms(1) by (auto simp: ringbuf_capacity_def ringbuf_buffer_size_def rb_valid_def)
  define rb1 where "rb1 = ring_put rb (bytes_of ''AB'')"
  define rb2 where "rb2 = ring_put rb1 (bytes_of ''CDE'')"
  have l: "length (bytes_of ''AB'') = 2" "length (bytes_of ''CDE'') = 3"
    by (simp_all add: bytes_of_def)
  have f0: "ringbuf_bytes_free rb = 4" and u0: "ringbuf_bytes_used rb = 0"
    and c0: "contents rb = []"
    using e free_empty [OF assms(1) em] used_zero_iff [OF assms(1)] contents_empty [OF assms(1) em]
    by simp_all
  have v1: "rb_valid rb1"
    unfolding rb1_def using assms(1) by (rule rb_valid_ring_put)
  have s1: "size_rb rb1 = 5"
    by (simp add: rb1_def ring_put_def Let_def sz)
  have i1: "ringbuf_memcpy_into rb (bytes_of ''AB'') 2 = Inr (head rb1, rb1)"
    using memcpy_into_eq [OF assms(1), of 2 "bytes_of ''AB''"] by (simp add: l rb1_def)
  have u1: "ringbuf_bytes_used rb1 = 2"
    using used_ring_put [OF assms(1), of "bytes_of ''AB''"] by (simp add: l sz f0 u0 rb1_def)
  then have f1: "ringbuf_bytes_free rb1 = 2"
    using used_free [OF v1] by (simp add: s1)
  have c1: "contents rb1 = bytes_of ''AB''"
    using contents_ring_put [OF assms(1), of "bytes_of ''AB''"] by (simp add: l sz f0 c0 rb1_def)
  have i2: "ringbuf_memcpy_into rb1 (bytes_of ''CDE'') 3 = Inr (head rb2, rb2)"
    using memcpy_into_eq [OF v1, of 3 "bytes_of ''CDE''"] by (simp add: l rb2_def)
  have u2: "ringbuf_bytes_used rb2 = 4"
    using used_ring_put [OF v1, of "bytes_of ''CDE''"] by (simp add: l s1 f1 rb2_def)
  have full2: "ringbuf_is_full rb2"
    unfolding rb2_def by (rule is_full_ring_put [OF v1]) (simp_all add: l s1 f1)
  have c2: "contents rb2 = bytes_of ''BCDE''"
    using contents_ring_put [OF v1, of "bytes_of ''CDE''"]
    by (simp add: l s1 f1 c1 rb2_def) (simp add: bytes_of_def)
  from i1 u1 f1 i2 u2 full2 c2
  show "\<exists>h1 rb1 h2 rb2.
               ringbuf_memcpy_into rb (bytes_of ''AB'') 2 = Inr (h1, rb1)
             \<and> ringbuf_bytes_used rb1 = 2 \<and> ringbuf_bytes_free rb1 = 2
             \<and> ringbuf_memcpy_into rb1 (bytes_of ''CDE'') 3 = Inr (h2, rb2)
             \<and> ringbuf_bytes_used rb2 = 4 \<and> ringbuf_is_full rb2
             \<and> contents rb2 = bytes_of ''BCDE''"
    by blast
qed

theorem overflow_eviction_witness:
  "(\<exists>rb'. ringbuf_memset \<lparr>buf = [65, 66, 0, 0, 0], head = 2, tail = 0, size_rb = 5\<rparr> 7 3
              = Inr (3, rb')
          \<and> contents rb' = [66, 7, 7, 7] \<and> ringbuf_is_full rb')
   \<and> (\<exists>h rb'. ringbuf_memcpy_into \<lparr>buf = [65, 66, 0, 0, 0], head = 2, tail = 0, size_rb = 5\<rparr>
                  [67, 68, 69] 3 = Inr (h, rb')
          \<and> contents rb' = [66, 67, 68, 69] \<and> ringbuf_is_full rb')
   \<and> (\<exists>h1 rb1 h2 rb2.
          ringbuf_memcpy_into \<lparr>buf = [0, 0, 0, 0, 0], head = 0, tail = 0, size_rb = 5\<rparr>
            (bytes_of ''AB'') 2 = Inr (h1, rb1)
        \<and> ringbuf_bytes_used rb1 = 2 \<and> ringbuf_bytes_free rb1 = 2
        \<and> ringbuf_memcpy_into rb1 (bytes_of ''CDE'') 3 = Inr (h2, rb2)
        \<and> ringbuf_bytes_used rb2 = 4 \<and> ringbuf_is_full rb2
        \<and> contents rb2 = bytes_of ''BCDE'')"
proof -
  have v: "rb_valid \<lparr>buf = [65, 66, 0, 0, 0], head = 2, tail = 0, size_rb = 5\<rparr>"
    by code_simp
  have c: "contents \<lparr>buf = [65, 66, 0, 0, 0], head = 2, tail = 0, size_rb = 5\<rparr> = [65, 66]"
    by code_simp
  have f: "ringbuf_bytes_free \<lparr>buf = [65, 66, 0, 0, 0], head = 2, tail = 0, size_rb = 5\<rparr> = 2"
    by code_simp
  have v0: "rb_valid \<lparr>buf = [0, 0, 0, 0, 0], head = 0, tail = 0, size_rb = 5\<rparr>"
    by code_simp
  have c0: "ringbuf_capacity \<lparr>buf = [0, 0, 0, 0, 0], head = 0, tail = 0, size_rb = 5\<rparr> = 4"
    by code_simp
  have r: "replicate 3 (7 :: byte) = [7, 7, 7]"
    by (simp add: numeral_3_eq_3)
  from overflow_eviction [OF v, of 3 "[67, 68, 69]" 7]
  have a: "(\<exists>rb'. ringbuf_memset \<lparr>buf = [65, 66, 0, 0, 0], head = 2, tail = 0, size_rb = 5\<rparr> 7 3
              = Inr (3, rb')
          \<and> contents rb' = [66, 7, 7, 7] \<and> ringbuf_is_full rb')"
    and b: "(\<exists>h rb'. ringbuf_memcpy_into \<lparr>buf = [65, 66, 0, 0, 0], head = 2, tail = 0, size_rb = 5\<rparr>
                  [67, 68, 69] 3 = Inr (h, rb')
          \<and> contents rb' = [66, 67, 68, 69] \<and> ringbuf_is_full rb')"
    by (simp_all add: c f r)
  from overflow_eviction [OF v0, of 0 "[]" 0]
  have "\<exists>h1 rb1 h2 rb2.
          ringbuf_memcpy_into \<lparr>buf = [0, 0, 0, 0, 0], head = 0, tail = 0, size_rb = 5\<rparr>
            (bytes_of ''AB'') 2 = Inr (h1, rb1)
        \<and> ringbuf_bytes_used rb1 = 2 \<and> ringbuf_bytes_free rb1 = 2
        \<and> ringbuf_memcpy_into rb1 (bytes_of ''CDE'') 3 = Inr (h2, rb2)
        \<and> ringbuf_bytes_used rb2 = 4 \<and> ringbuf_is_full rb2
        \<and> contents rb2 = bytes_of ''BCDE''"
    by (simp add: c0)
  with a b show ?thesis
    by (intro conjI)
qed

section \<open>Underflow\<close>

text \<open>
  C3. When \<open>count\<close> exceeds the bytes used in the source buffer,
  \<^verbatim>\<open>ringbuf_memcpy_from\<close> and \<^verbatim>\<open>ringbuf_copy\<close> return the null pointer, and the
  caller's array, the source buffer and the destination buffer are what they were:
  heads, tails and stored bytes are unchanged.
\<close>

theorem underflow_no_mutation:
  "ringbuf_bytes_used src < count \<Longrightarrow>
   ringbuf_memcpy_from dst src count = Inr (None, dst, src)
   \<and> ringbuf_copy d src count = Inr (None, d, src)"
  by (simp add: ringbuf_memcpy_from_def ringbuf_copy_def)

theorem underflow_no_mutation_witness:
  "ringbuf_bytes_used \<lparr>buf = [1, 2, 3], head = 1, tail = 0, size_rb = 3\<rparr> < 2
   \<and> ringbuf_memcpy_from [9, 9] \<lparr>buf = [1, 2, 3], head = 1, tail = 0, size_rb = 3\<rparr> 2
       = Inr (None, [9, 9], \<lparr>buf = [1, 2, 3], head = 1, tail = 0, size_rb = 3\<rparr>)
   \<and> ringbuf_copy \<lparr>buf = [5, 6], head = 0, tail = 0, size_rb = 2\<rparr>
         \<lparr>buf = [1, 2, 3], head = 1, tail = 0, size_rb = 3\<rparr> 2
       = Inr (None, \<lparr>buf = [5, 6], head = 0, tail = 0, size_rb = 2\<rparr>,
              \<lparr>buf = [1, 2, 3], head = 1, tail = 0, size_rb = 3\<rparr>)"
proof -
  have u: "ringbuf_bytes_used \<lparr>buf = [1, 2, 3], head = 1, tail = 0, size_rb = 3\<rparr> < 2"
    by (simp add: ringbuf_bytes_used_def ringbuf_bytes_free_def ringbuf_capacity_def
        ringbuf_buffer_size_def)
  from underflow_no_mutation [OF u] u show ?thesis
    by simp
qed

section \<open>Invariants of the reachable buffers\<close>

lemma reachable_example:
  "reachable \<lparr>buf = [65, 66, 0, 0, 0], head = 2, tail = 0, size_rb = 5\<rparr>"
proof -
  have m: "map (\<lambda>_. 0 :: byte) [0..<5] = [0, 0, 0, 0, 0]"
    by code_simp
  have n: "ringbuf_new 4 (Some 1) (Some (2, \<lambda>_. 0)) {}
      = (Some (1, \<lparr>buf = [0, 0, 0, 0, 0], head = 0, tail = 0, size_rb = 5\<rparr>), {1, 2})"
    by (simp add: ringbuf_new_def rb_malloc_def ringbuf_reset_def size_t_modulus_def Let_def
        m insert_commute)
  have s: "(4::nat) + 1 < size_t_modulus"
    by (simp add: size_t_modulus_def)
  have r0: "reachable \<lparr>buf = [0, 0, 0, 0, 0], head = 0, tail = 0, size_rb = 5\<rparr>"
    by (rule reachable.new [OF n s])
  have w: "ringbuf_memcpy_into \<lparr>buf = [0, 0, 0, 0, 0], head = 0, tail = 0, size_rb = 5\<rparr>
      [65, 66] 2 = Inr (2, \<lparr>buf = [65, 66, 0, 0, 0], head = 2, tail = 0, size_rb = 5\<rparr>)"
    by code_simp
  show ?thesis
    by (rule reachable.memcpy_into [OF r0 w])
qed

text \<open>
  C4. For every buffer that a constructor returned (for a capacity whose
  \<open>capacity + 1\<close> does not wrap) and that any sequence of \<^verbatim>\<open>ringbuf_reset\<close>,
  \<^verbatim>\<open>ringbuf_findchr\<close>, \<^verbatim>\<open>ringbuf_memset\<close>, \<^verbatim>\<open>ringbuf_memcpy_into\<close>,
  \<^verbatim>\<open>ringbuf_memcpy_from\<close> and \<^verbatim>\<open>ringbuf_copy\<close> has left,
  \<open>bytes_used + bytes_free = capacity\<close> and \<open>0 \<le> bytes_used \<le> capacity\<close>.
\<close>

theorem occupancy_invariant:
  "reachable rb \<Longrightarrow>
   ringbuf_bytes_used rb + ringbuf_bytes_free rb = ringbuf_capacity rb
   \<and> 0 \<le> ringbuf_bytes_used rb \<and> ringbuf_bytes_used rb \<le> ringbuf_capacity rb"
proof -
  assume "reachable rb"
  then have "rb_valid rb"
    by (rule reachable_valid)
  from used_free [OF this] show ?thesis
    by (simp add: ringbuf_capacity_def ringbuf_buffer_size_def)
qed

theorem occupancy_invariant_witness:
  "ringbuf_bytes_used \<lparr>buf = [65, 66, 0, 0, 0], head = 2, tail = 0, size_rb = 5\<rparr>
     + ringbuf_bytes_free \<lparr>buf = [65, 66, 0, 0, 0], head = 2, tail = 0, size_rb = 5\<rparr>
     = ringbuf_capacity \<lparr>buf = [65, 66, 0, 0, 0], head = 2, tail = 0, size_rb = 5\<rparr>
   \<and> ringbuf_bytes_used \<lparr>buf = [65, 66, 0, 0, 0], head = 2, tail = 0, size_rb = 5\<rparr> = 2
   \<and> ringbuf_capacity \<lparr>buf = [65, 66, 0, 0, 0], head = 2, tail = 0, size_rb = 5\<rparr> = 4"
proof -
  have u: "ringbuf_bytes_used \<lparr>buf = [65, 66, 0, 0, 0], head = 2, tail = 0, size_rb = 5\<rparr> = 2"
    by code_simp
  have c: "ringbuf_capacity \<lparr>buf = [65, 66, 0, 0, 0], head = 2, tail = 0, size_rb = 5\<rparr> = 4"
    by code_simp
  from occupancy_invariant [OF reachable_example, THEN conjunct1] u c show ?thesis
    by (intro conjI)
qed

section \<open>The cursors and the storage region\<close>

text \<open>
  Where \<^verbatim>\<open>capacity + 1\<close> did not wrap in the constructor, the cursors stay in the storage
  region: for every buffer in \<open>reachable\<close>, head and tail are offsets below \<open>size\<close>, the
  length of the storage; \<^verbatim>\<open>ringbuf_is_empty\<close> holds exactly when head and tail are
  equal; \<^verbatim>\<open>ringbuf_is_full\<close> holds exactly when no byte is free, which is exactly when
  \<^verbatim>\<open>ringbuf_nextp\<close> of the head is the tail.
\<close>

lemma cursor_valid_reachable:
  "reachable rb \<Longrightarrow>
   head rb < size_rb rb \<and> tail rb < size_rb rb \<and> length (buf rb) = size_rb rb
   \<and> (ringbuf_is_empty rb \<longleftrightarrow> head rb = tail rb)
   \<and> (ringbuf_is_full rb \<longleftrightarrow> ringbuf_bytes_free rb = 0)
   \<and> (ringbuf_bytes_free rb = 0 \<longleftrightarrow> ringbuf_nextp rb (head rb) = Inr (tail rb))"
proof -
  assume "reachable rb"
  then have v: "rb_valid rb"
    by (rule reachable_valid)
  then have "head rb < size_rb rb" "tail rb < size_rb rb" "length (buf rb) = size_rb rb"
    by (simp_all add: rb_valid_def)
  moreover have "ringbuf_is_empty rb \<longleftrightarrow> head rb = tail rb"
    using v by (rule is_empty_iff)
  moreover have "ringbuf_is_full rb \<longleftrightarrow> ringbuf_bytes_free rb = 0"
    by (simp add: ringbuf_is_full_def)
  moreover have "ringbuf_bytes_free rb = 0 \<longleftrightarrow> ringbuf_nextp rb (head rb) = Inr (tail rb)"
    using v by (rule full_iff_next)
  ultimately show ?thesis
    by blast
qed

lemma cursor_valid_reachable_example:
  "head \<lparr>buf = [65, 66, 0, 0, 0], head = 2, tail = 0, size_rb = 5\<rparr> < 5
   \<and> tail \<lparr>buf = [65, 66, 0, 0, 0], head = 2, tail = 0, size_rb = 5\<rparr> < 5
   \<and> \<not> ringbuf_is_empty \<lparr>buf = [65, 66, 0, 0, 0], head = 2, tail = 0, size_rb = 5\<rparr>
   \<and> \<not> ringbuf_is_full \<lparr>buf = [65, 66, 0, 0, 0], head = 2, tail = 0, size_rb = 5\<rparr>
   \<and> ringbuf_nextp \<lparr>buf = [65, 66, 0, 0, 0], head = 2, tail = 0, size_rb = 5\<rparr> 2 = Inr 3"
proof -
  have f: "ringbuf_bytes_free \<lparr>buf = [65, 66, 0, 0, 0], head = 2, tail = 0, size_rb = 5\<rparr> = 2"
    by code_simp
  have n: "ringbuf_nextp \<lparr>buf = [65, 66, 0, 0, 0], head = 2, tail = 0, size_rb = 5\<rparr> 2 = Inr 3"
    by code_simp
  from cursor_valid_reachable [OF reachable_example] f n show ?thesis
    by simp
qed

text \<open>
  C8. The claim is that on every buffer a sequence of operations can leave, head and
  tail lie in the storage region \<open>[storage_start, storage_start + size)\<close>. The
  constructors break it: they compute \<^verbatim>\<open>rb->size = capacity + 1\<close> with no check of the
  sum. For the capacity \<open>2 ^ 64 - 1\<close> (\<^verbatim>\<open>SIZE_MAX\<close>) it wraps to 0, the storage asked
  for has 0 bytes, and \<^verbatim>\<open>ringbuf_new\<close>, as \<^verbatim>\<open>ringbuf_new_static\<close> with a buffer of size
  0, returns a buffer of size 0 whose head and tail are the start of the storage:
  neither is below \<open>size\<close>. On that buffer the source's own assertions fail:
  \<^verbatim>\<open>ringbuf_nextp\<close> of the head, and the first step of \<^verbatim>\<open>ringbuf_memcpy_into\<close>.
\<close>

theorem cursor_invariant_broken_at_size_max:
  "ringbuf_new (size_t_modulus - 1) (Some 1) (Some (2, \<lambda>_. 0)) {}
     = (Some (1, \<lparr>buf = [], head = 0, tail = 0, size_rb = 0\<rparr>), {1, 2})
   \<and> ringbuf_new_static (size_t_modulus - 1) (Some []) 0 (Some 1) {}
     = Inr (Some (1, \<lparr>buf = [], head = 0, tail = 0, size_rb = 0\<rparr>), {1})
   \<and> \<not> head \<lparr>buf = [], head = 0, tail = 0, size_rb = 0\<rparr>
         < size_rb \<lparr>buf = [], head = 0, tail = 0, size_rb = 0\<rparr>
   \<and> \<not> tail \<lparr>buf = [], head = 0, tail = 0, size_rb = 0\<rparr>
         < size_rb \<lparr>buf = [], head = 0, tail = 0, size_rb = 0\<rparr>
   \<and> ringbuf_nextp \<lparr>buf = [], head = 0, tail = 0, size_rb = 0\<rparr> 0 = Inl AssertionFailed
   \<and> ringbuf_memcpy_into \<lparr>buf = [], head = 0, tail = 0, size_rb = 0\<rparr> [65] 1
       = Inl AssertionFailed"
proof -
  have a: "ringbuf_new (size_t_modulus - 1) (Some 1) (Some (2, \<lambda>_. 0)) {}
     = (Some (1, \<lparr>buf = [], head = 0, tail = 0, size_rb = 0\<rparr>), {1, 2})"
    by (simp add: ringbuf_new_def rb_malloc_def ringbuf_reset_def size_t_modulus_def
        insert_commute)
  have b: "ringbuf_new_static (size_t_modulus - 1) (Some []) 0 (Some 1) {}
     = Inr (Some (1, \<lparr>buf = [], head = 0, tail = 0, size_rb = 0\<rparr>), {1})"
    by (simp add: ringbuf_new_static_def rb_malloc_def ringbuf_reset_def size_t_modulus_def)
  have c: "ringbuf_nextp \<lparr>buf = [], head = 0, tail = 0, size_rb = 0\<rparr> 0 = Inl AssertionFailed"
    by (simp add: ringbuf_nextp_def ringbuf_end_def ringbuf_buffer_size_def)
  have d: "ringbuf_memcpy_into \<lparr>buf = [], head = 0, tail = 0, size_rb = 0\<rparr> [65] 1
      = Inl AssertionFailed"
    by code_simp
  from a b c d show ?thesis
    by simp
qed

section \<open>Occupancy formulas\<close>

text \<open>
  C5. On a buffer with valid cursors \<^verbatim>\<open>ringbuf_bytes_free\<close> is
  \<open>capacity - (head - tail)\<close> when \<open>head \<ge> tail\<close> and \<open>tail - head - 1\<close> otherwise, and
  \<^verbatim>\<open>ringbuf_bytes_used\<close> is the capacity minus that value. The formulas are read in
  the integers: no subtraction of the source goes below zero.
\<close>

theorem bytes_free_int:
  "rb_valid rb \<Longrightarrow>
   int (ringbuf_bytes_free rb) =
     (if head rb \<ge> tail rb then int (ringbuf_capacity rb) - (int (head rb) - int (tail rb))
      else int (tail rb) - int (head rb) - 1)
   \<and> int (ringbuf_bytes_used rb) = int (ringbuf_capacity rb) - int (ringbuf_bytes_free rb)"
  by (auto simp: rb_valid_def ringbuf_bytes_used_def ringbuf_bytes_free_def
        ringbuf_capacity_def ringbuf_buffer_size_def)

theorem bytes_free_int_witness:
  "rb_valid \<lparr>buf = [0, 0, 0, 0, 0], head = 1, tail = 3, size_rb = 5\<rparr>
   \<and> ringbuf_bytes_free \<lparr>buf = [0, 0, 0, 0, 0], head = 1, tail = 3, size_rb = 5\<rparr> = 1
   \<and> ringbuf_bytes_used \<lparr>buf = [0, 0, 0, 0, 0], head = 1, tail = 3, size_rb = 5\<rparr> = 3"
proof -
  have v: "rb_valid \<lparr>buf = [0, 0, 0, 0, 0], head = 1, tail = 3, size_rb = 5\<rparr>"
    by (simp add: rb_valid_def)
  from bytes_free_int [OF v] v show ?thesis
    by (simp add: ringbuf_capacity_def ringbuf_buffer_size_def)
qed

section \<open>Search on the flattened content\<close>

text \<open>
  C6. On a valid buffer \<^verbatim>\<open>ringbuf_findchr\<close> returns what the search for \<open>c\<close> from
  \<open>offset\<close> on returns on the flattened content: the offset, counted from the tail, of the
  first byte equal to \<open>c\<close>, and the number of bytes used when there is none. When
  \<open>offset\<close> is not below the number of bytes used it returns that number. The function
  reads the buffer through a pointer to \<^verbatim>\<open>const\<close>; its model returns the offset only.
\<close>

theorem findchr_flat:
  "rb_valid rb \<Longrightarrow>
   ringbuf_findchr rb c offset = Inr (flat_findchr (contents rb) c offset)
   \<and> (ringbuf_bytes_used rb \<le> offset \<longrightarrow>
        ringbuf_findchr rb c offset = Inr (ringbuf_bytes_used rb))"
  by (simp add: findchr_flat_aux flat_findchr_def)

theorem findchr_flat_witness:
  "ringbuf_findchr \<lparr>buf = [3, 4, 0, 1, 2], head = 2, tail = 3, size_rb = 5\<rparr> 4 1 = Inr 3
   \<and> contents \<lparr>buf = [3, 4, 0, 1, 2], head = 2, tail = 3, size_rb = 5\<rparr> = [1, 2, 3, 4]
   \<and> flat_findchr [1, 2, 3, 4] 4 1 = 3
   \<and> ringbuf_findchr \<lparr>buf = [3, 4, 0, 1, 2], head = 2, tail = 3, size_rb = 5\<rparr> 1 6 = Inr 4"
proof -
  have v: "rb_valid \<lparr>buf = [3, 4, 0, 1, 2], head = 2, tail = 3, size_rb = 5\<rparr>"
    by code_simp
  have c: "contents \<lparr>buf = [3, 4, 0, 1, 2], head = 2, tail = 3, size_rb = 5\<rparr> = [1, 2, 3, 4]"
    by code_simp
  have f: "flat_findchr [1, 2, 3, 4] 4 1 = 3"
    by code_simp
  have u: "ringbuf_bytes_used \<lparr>buf = [3, 4, 0, 1, 2], head = 2, tail = 3, size_rb = 5\<rparr> = 4"
    by code_simp
  from findchr_flat [OF v, of 4 1, THEN conjunct1]
  have a: "ringbuf_findchr \<lparr>buf = [3, 4, 0, 1, 2], head = 2, tail = 3, size_rb = 5\<rparr> 4 1 = Inr 3"
    by (simp only: c f)
  from findchr_flat [OF v, of 1 6, THEN conjunct2]
  have b: "ringbuf_findchr \<lparr>buf = [3, 4, 0, 1, 2], head = 2, tail = 3, size_rb = 5\<rparr> 1 6 = Inr 4"
    by (simp add: u)
  show ?thesis
    by (intro conjI a c f b)
qed

section \<open>Fill length and return value\<close>

text \<open>
  C7. On a valid buffer \<^verbatim>\<open>ringbuf_memset\<close> returns \<open>min len size\<close>, the number of
  bytes written. The head has advanced by that number, modulo the size; the
  \<open>min len size\<close> slots from the old head on, going round the end of the storage, hold
  the byte \<open>c\<close>, and every other slot holds what it held.
\<close>

theorem memset_count:
  assumes "rb_valid rb"
  shows "\<exists>rb'. ringbuf_memset rb c len = Inr (min len (size_rb rb), rb')
    \<and> head rb' = (head rb + min len (size_rb rb)) mod size_rb rb
    \<and> size_rb rb' = size_rb rb \<and> length (buf rb') = size_rb rb
    \<and> (\<forall>i < size_rb rb.
          buf rb' ! ((head rb + i) mod size_rb rb) =
            (if i < min len (size_rb rb) then word_of_int c
             else buf rb ! ((head rb + i) mod size_rb rb)))"
proof -
  define n where "n = min len (size_rb rb)"
  define xs where "xs = replicate n (word_of_int c :: byte)"
  define rb' where "rb' = ring_put rb xs"
  have ms: "ringbuf_memset rb c len = Inr (n, rb')"
    using memset_eq [OF assms, of c len] by (simp only: n_def xs_def rb'_def)
  have h: "head rb < length (buf rb)" and l: "length (buf rb) = size_rb rb"
    using assms by (simp_all add: rb_valid_def)
  have lx: "length xs = n" "length xs \<le> length (buf rb)"
    by (simp_all add: xs_def n_def l)
  have hd: "head rb' = (head rb + n) mod size_rb rb"
    by (simp add: rb'_def ring_put_def Let_def lx)
  have sz: "size_rb rb' = size_rb rb" and bf: "buf rb' = ring_write (buf rb) (head rb) xs"
    by (simp_all add: rb'_def ring_put_def Let_def)
  have nth: "buf rb' ! ((head rb + i) mod size_rb rb) =
      (if i < n then word_of_int c else buf rb ! ((head rb + i) mod size_rb rb))"
    if "i < size_rb rb" for i
    using ring_write_nth_from_head [OF h lx(2), of i] that
    by (simp add: bf l lx(1)) (simp add: xs_def)
  from ms hd sz nth show ?thesis
    unfolding n_def [symmetric] by (auto simp: bf l)
qed

theorem memset_count_witness:
  "\<exists>rb'. ringbuf_memset \<lparr>buf = [1, 2, 3, 4, 5], head = 3, tail = 1, size_rb = 5\<rparr> 7 9
      = Inr (5, rb')
    \<and> head rb' = 3 \<and> size_rb rb' = 5 \<and> length (buf rb') = 5
    \<and> buf rb' ! 3 = 7 \<and> buf rb' ! 0 = 7"
proof -
  have v: "rb_valid \<lparr>buf = [1, 2, 3, 4, 5], head = 3, tail = 1, size_rb = 5\<rparr>"
    by code_simp
  from memset_count [OF v, of 7 9] obtain rb' where
    r: "ringbuf_memset \<lparr>buf = [1, 2, 3, 4, 5], head = 3, tail = 1, size_rb = 5\<rparr> 7 9
      = Inr (5, rb')" "head rb' = 3" "size_rb rb' = 5" "length (buf rb') = 5"
    and n: "\<forall>i<5. buf rb' ! ((3 + i) mod 5) = (7 :: byte)"
    by auto
  from n [rule_format, of 0] n [rule_format, of 2]
  have "buf rb' ! 3 = 7" "buf rb' ! 0 = 7"
    by simp_all
  with r show ?thesis
    by blast
qed

section \<open>Copy between two ring buffers\<close>

text \<open>
  C9. Let \<open>a\<close> be a buffer of capacity 4 with the content \<open>XYZW\<close> and \<open>b\<close> an empty buffer
  of capacity 2. \<^verbatim>\<open>ringbuf_copy\<close> of 3 bytes from \<open>a\<close> to \<open>b\<close> succeeds; \<open>b\<close> is then
  full with 2 bytes used and the content \<open>YZ\<close> (one byte, \<open>X\<close>, was lost to the
  overflow), and the tail of \<open>a\<close> has moved by 3 slots, leaving the content \<open>W\<close>.
\<close>

theorem copy_overflow_scenario:
  assumes "rb_valid a" and "ringbuf_capacity a = 4" and "contents a = bytes_of ''XYZW''"
    and "rb_valid b" and "ringbuf_capacity b = 2" and "head b = tail b"
  shows "\<exists>h b' a'.
      ringbuf_copy b a 3 = Inr (Some h, b', a')
    \<and> ringbuf_bytes_used b' = 2 \<and> ringbuf_is_full b' \<and> contents b' = bytes_of ''YZ''
    \<and> tail a' = (tail a + 3) mod 5 \<and> contents a' = bytes_of ''W''"
proof -
  define xs where "xs = ring_read (buf a) (tail a) 3"
  define b' where "b' = ring_put b xs"
  have sa: "size_rb a = 5" and sb: "size_rb b = 3"
    using assms(1,2,4,5) by (auto simp: ringbuf_capacity_def ringbuf_buffer_size_def rb_valid_def)
  have "length (contents a) = 4"
    by (simp only: assms(3)) (simp add: bytes_of_def)
  then have ua: "ringbuf_bytes_used a = 4"
    by simp
  have xs: "xs = bytes_of ''XYZ''"
  proof -
    have "xs = take 3 (contents a)"
      by (simp add: xs_def contents_def take_ring_read ua)
    then show ?thesis
      by (simp add: assms(3) bytes_of_def)
  qed
  have lx: "length xs = 3"
    by (simp add: xs_def)
  have fb: "ringbuf_bytes_free b = 2" and cb: "contents b = []"
    using free_empty [OF assms(4,6)] contents_empty [OF assms(4,6)] assms(5) by simp_all
  have cp: "ringbuf_copy b a 3 = Inr (Some (head b'), b', ring_drop a 3)"
    using copy_eq [OF assms(4,1), of 3] by (simp add: ua b'_def xs_def)
  have ub: "ringbuf_bytes_used b' = 2"
    using used_ring_put [OF assms(4), of xs] by (simp add: lx sb fb b'_def)
  have full: "ringbuf_is_full b'"
    unfolding b'_def by (rule is_full_ring_put [OF assms(4)]) (simp_all add: lx sb fb)
  have c': "contents b' = bytes_of ''YZ''"
    using contents_ring_put [OF assms(4), of xs]
    by (simp add: lx sb fb cb b'_def) (simp add: xs bytes_of_def)
  have ta: "tail (ring_drop a 3) = (tail a + 3) mod 5"
    by (simp add: ring_drop_def sa)
  have ca: "contents (ring_drop a 3) = bytes_of ''W''"
    using contents_ring_drop [OF assms(1), of 3] by (simp add: ua assms(3)) (simp add: bytes_of_def)
  from cp ub full c' ta ca show ?thesis
    by blast
qed

theorem copy_overflow_scenario_witness:
  "\<exists>h b' a'.
      ringbuf_copy \<lparr>buf = [0, 0, 0], head = 1, tail = 1, size_rb = 3\<rparr>
        \<lparr>buf = [of_char CHR ''Z'', of_char CHR ''W'', 0, of_char CHR ''X'', of_char CHR ''Y''],
         head = 2, tail = 3, size_rb = 5\<rparr> 3 = Inr (Some h, b', a')
    \<and> ringbuf_bytes_used b' = 2 \<and> ringbuf_is_full b' \<and> contents b' = bytes_of ''YZ''
    \<and> tail a' = 1 \<and> contents a' = bytes_of ''W''"
proof -
  have 1: "rb_valid \<lparr>buf = [of_char CHR ''Z'', of_char CHR ''W'', 0, of_char CHR ''X'',
      of_char CHR ''Y''], head = 2, tail = 3, size_rb = 5\<rparr>"
    by (simp add: rb_valid_def)
  have 2: "ringbuf_capacity \<lparr>buf = [of_char CHR ''Z'', of_char CHR ''W'', 0, of_char CHR ''X'',
      of_char CHR ''Y''], head = 2, tail = 3, size_rb = 5\<rparr> = 4"
    by (simp add: ringbuf_capacity_def ringbuf_buffer_size_def)
  have 3: "contents \<lparr>buf = [of_char CHR ''Z'', of_char CHR ''W'', 0, of_char CHR ''X'',
      of_char CHR ''Y''], head = 2, tail = 3, size_rb = 5\<rparr> = bytes_of ''XYZW''"
    by code_simp
  have 4: "rb_valid \<lparr>buf = [0, 0, 0], head = 1, tail = 1, size_rb = 3\<rparr>"
    by (simp add: rb_valid_def)
  have 5: "ringbuf_capacity \<lparr>buf = [0, 0, 0], head = 1, tail = 1, size_rb = 3\<rparr> = 2"
    by (simp add: ringbuf_capacity_def ringbuf_buffer_size_def)
  have 6: "head \<lparr>buf = [0, 0, 0], head = 1, tail = 1, size_rb = 3\<rparr>
      = tail \<lparr>buf = [0, 0, 0], head = 1, tail = 1, size_rb = 3\<rparr>"
    by simp
  from copy_overflow_scenario [OF 1 2 3 4 5 6] show ?thesis
    by simp
qed

section \<open>Construction over a null storage pointer\<close>

text \<open>
  C10. \<^verbatim>\<open>ringbuf_new_static\<close> called with a null storage pointer and
  \<open>buf_size = capacity + 1\<close> returns the null pointer, and the heap is what it was
  before the call: the metadata block, when the allocator gave one (at a fresh
  address), has been released. No buffer over null storage is returned.
\<close>

theorem new_static_null_storage:
  "buf_size = (capacity + 1) mod size_t_modulus \<Longrightarrow>
   (\<forall>p. answer_rb = Some p \<longrightarrow> p \<notin> h) \<Longrightarrow>
   ringbuf_new_static capacity None buf_size answer_rb h = Inr (None, h)"
  by (auto simp: ringbuf_new_static_def rb_malloc_def rb_free_def split: option.splits)

theorem new_static_null_storage_witness:
  "ringbuf_new_static 4 None 5 (Some 7) {1, 2} = Inr (None, {1, 2})"
proof -
  have a: "(5::nat) = (4 + 1) mod size_t_modulus"
    by (simp add: size_t_modulus_def)
  have b: "\<forall>p. Some (7::nat) = Some p \<longrightarrow> p \<notin> {1, 2}"
    by simp
  show ?thesis
    by (rule new_static_null_storage [OF a b])
qed

end
